theory Spec2Isabelle
  imports Complex_Main "HOL-Library.Sublist" "HOL-Library.Log_Nat" "HOL-Library.AList"
begin

section \<open>Strings\<close>

text \<open>
  A JavaScript string is a sequence of UTF-16 code units; \<open>startsWith\<close>, \<open>endsWith\<close> and
  \<open>slice\<close> work on code units. Here a string is a \<open>char list\<close>, one \<open>char\<close> for one code unit
  (so the model covers the code units below 256, which is all that symbols, currency names and
  the wire's field names use).
\<close>

definition startsWith :: "string \<Rightarrow> string \<Rightarrow> bool" where
  "startsWith s t = prefix t s"

definition endsWith :: "string \<Rightarrow> string \<Rightarrow> bool" where
  "endsWith s t = suffix t s"

text \<open>\<open>msg.includes(w)\<close>, what the tests' \<open>toContain\<close> checks on an error string.\<close>

definition mentions :: "string \<Rightarrow> string \<Rightarrow> bool" where
  "mentions msg w = sublist w msg"

section \<open>Contract router (contract-router.ts)\<close>

datatype ContractType = Linear | Inverse | Spot

datatype Operation =
    PlaceOrder | CancelOrder | AmendOrder | CancelAll
  | SetLeverage | SwitchPosMode
  | Account | Positions | OpenOrders | OrderHistory | TradeHistory
  | Ticker | Orderbook | Klines | RecentTrades | FundingRate

fun ENDPOINTS :: "ContractType \<Rightarrow> Operation \<Rightarrow> string" where
  "ENDPOINTS Linear PlaceOrder = ''/g-orders/create''"
| "ENDPOINTS Linear CancelOrder = ''/g-orders/cancel''"
| "ENDPOINTS Linear AmendOrder = ''/g-orders/replace''"
| "ENDPOINTS Linear CancelAll = ''/g-orders/all''"
| "ENDPOINTS Linear SetLeverage = ''/g-positions/leverage''"
| "ENDPOINTS Linear SwitchPosMode = ''/g-positions/switch-pos-mode-sync''"
| "ENDPOINTS Linear Account = ''/g-accounts/accountPositions''"
| "ENDPOINTS Linear Positions = ''/g-accounts/positions''"
| "ENDPOINTS Linear OpenOrders = ''/g-orders/activeList''"
| "ENDPOINTS Linear OrderHistory = ''/api-data/g-futures/orders''"
| "ENDPOINTS Linear TradeHistory = ''/api-data/g-futures/trades''"
| "ENDPOINTS Linear Ticker = ''/md/v2/ticker/24hr''"
| "ENDPOINTS Linear Orderbook = ''/md/v2/orderbook''"
| "ENDPOINTS Linear Klines = ''/exchange/public/md/v2/kline/list''"
| "ENDPOINTS Linear RecentTrades = ''/md/v2/trade''"
| "ENDPOINTS Linear FundingRate = ''/api-data/public/data/funding-rate-history''"
| "ENDPOINTS Inverse PlaceOrder = ''/orders/create''"
| "ENDPOINTS Inverse CancelOrder = ''/orders/cancel''"
| "ENDPOINTS Inverse AmendOrder = ''/orders/replace''"
| "ENDPOINTS Inverse CancelAll = ''/orders/all''"
| "ENDPOINTS Inverse SetLeverage = ''/positions/leverage''"
| "ENDPOINTS Inverse SwitchPosMode = ''/positions/switch-pos-mode-sync''"
| "ENDPOINTS Inverse Account = ''/accounts/accountPositions''"
| "ENDPOINTS Inverse Positions = ''/accounts/positions''"
| "ENDPOINTS Inverse OpenOrders = ''/orders/activeList''"
| "ENDPOINTS Inverse OrderHistory = ''/exchange/order/list''"
| "ENDPOINTS Inverse TradeHistory = ''/exchange/order/trade''"
| "ENDPOINTS Inverse Ticker = ''/md/v1/ticker/24hr''"
| "ENDPOINTS Inverse Orderbook = ''/md/orderbook''"
| "ENDPOINTS Inverse Klines = ''/exchange/public/md/v2/kline''"
| "ENDPOINTS Inverse RecentTrades = ''/md/trade''"
| "ENDPOINTS Inverse FundingRate = ''/api-data/public/data/funding-rate-history''"
| "ENDPOINTS Spot PlaceOrder = ''/spot/orders/create''"
| "ENDPOINTS Spot CancelOrder = ''/spot/orders''"
| "ENDPOINTS Spot AmendOrder = ''/spot/orders''"
| "ENDPOINTS Spot CancelAll = ''/spot/orders/all''"
| "ENDPOINTS Spot SetLeverage = ''''"
| "ENDPOINTS Spot SwitchPosMode = ''''"
| "ENDPOINTS Spot Account = ''''"
| "ENDPOINTS Spot Positions = ''''"
| "ENDPOINTS Spot OpenOrders = ''/spot/orders''"
| "ENDPOINTS Spot OrderHistory = ''/api-data/spots/orders''"
| "ENDPOINTS Spot TradeHistory = ''/api-data/spots/trades''"
| "ENDPOINTS Spot Ticker = ''/md/spot/ticker/24hr''"
| "ENDPOINTS Spot Orderbook = ''/md/orderbook''"
| "ENDPOINTS Spot Klines = ''/exchange/public/md/v2/kline/list''"
| "ENDPOINTS Spot RecentTrades = ''/md/trade''"
| "ENDPOINTS Spot FundingRate = ''''"

definition getEndpoint :: "ContractType \<Rightarrow> Operation \<Rightarrow> string" where
  "getEndpoint contractType operation = ENDPOINTS contractType operation"

definition resolveSymbol :: "ContractType \<Rightarrow> string \<Rightarrow> string" where
  "resolveSymbol contractType symbol =
     (if contractType = Spot \<and> \<not> startsWith symbol ''s'' then ''s'' @ symbol else symbol)"

text \<open>\<open>validateSymbol\<close> returns \<open>null\<close> (\<open>None\<close>) or the error string.\<close>

definition validateSymbol :: "ContractType \<Rightarrow> string \<Rightarrow> string option" where
  \<open>validateSymbol contractType symbol =
     (if contractType = Spot then
        (let raw = (if startsWith symbol ''s'' then drop 1 symbol else symbol)
         in if endsWith raw ''USD'' \<and> \<not> endsWith raw ''USDT''
            then Some (''Symbol '' @ symbol @
              '' looks like a Coin-M symbol. Spot symbols should end in USDT (e.g. BTCUSDT).'')
            else None)
      else if contractType = Inverse \<and> endsWith symbol ''USDT''
        then Some (''Symbol '' @ symbol @
          '' looks like a USDT-M symbol. Use contractType="linear" for USDT-M symbols.'')
      else if contractType = Linear \<and> endsWith symbol ''USD'' \<and> \<not> endsWith symbol ''USDT''
        then Some (''Symbol '' @ symbol @
          '' looks like a Coin-M symbol. Use contractType="inverse" for Coin-M symbols.'')
      else None)\<close>

definition isInverse :: "ContractType \<Rightarrow> bool" where
  "isInverse contractType = (contractType = Inverse)"

definition isSpot :: "ContractType \<Rightarrow> bool" where
  "isSpot contractType = (contractType = Spot)"

section \<open>Numbers\<close>

text \<open>
  A JavaScript number is an IEEE 754 double. \<open>Finite neg m\<close> is the finite double of
  magnitude \<open>m \<ge> 0\<close> and sign \<open>neg\<close> (so \<open>Finite True 0\<close> is \<open>-0\<close>), \<open>Infinity neg\<close> is
  plus or minus infinity. Magnitudes are exact rationals; every operation computes the exact
  result and rounds it to the nearest double, ties to even.
\<close>

datatype number = NaN | Infinity bool | Finite bool rat

text \<open>\<open>ilog2 m\<close> is the binary exponent of \<open>m > 0\<close>: \<open>2 ^ ilog2 m \<le> m < 2 ^ (ilog2 m + 1)\<close>.\<close>

definition ilog2 :: "rat \<Rightarrow> int" where
  "ilog2 m = (if 1 \<le> m then bitlen \<lfloor>m\<rfloor> - 1 else - bitlen (\<lceil>1 / m\<rceil> - 1))"

definition roundHalfEven :: "rat \<Rightarrow> int" where
  "roundHalfEven q =
     (let f = \<lfloor>q\<rfloor>; r = q - of_int f
      in if r < 1 / 2 then f else if 1 / 2 < r then f + 1 else if even f then f else f + 1)"

text \<open>The largest finite double.\<close>

definition maxDouble :: rat where
  "maxDouble = (2 ^ 53 - 1) * 2 ^ 971"

text \<open>
  The exponent of the unit in the last place at \<open>m\<close>: 52 below the binary exponent for a
  normal number, \<open>-1074\<close> in the subnormal range.
\<close>

definition ulpExp :: "rat \<Rightarrow> int" where
  "ulpExp m = max (ilog2 m) (- 1022) - 52"

text \<open>
  Rounding a magnitude to a double: the nearest multiple of the unit in the last place, ties
  to even; \<open>None\<close> when the rounded value exceeds the largest finite double (overflow).
\<close>

definition toDouble :: "rat \<Rightarrow> rat option" where
  "toDouble m =
     (if m = 0 then Some 0
      else let r = of_int (roundHalfEven (m / 2 powi ulpExp m)) * 2 powi ulpExp m
           in if maxDouble < r then None else Some r)"

definition mkNumber :: "bool \<Rightarrow> rat \<Rightarrow> number" where
  "mkNumber neg m = (case toDouble m of None \<Rightarrow> Infinity neg | Some r \<Rightarrow> Finite neg r)"

text \<open>The operators \<open>*\<close> and \<open>/\<close> on numbers.\<close>

fun times_number :: "number \<Rightarrow> number \<Rightarrow> number" where
  "times_number (Finite s a) (Finite t b) = mkNumber (s \<noteq> t) (a * b)"
| "times_number (Infinity s) (Infinity t) = Infinity (s \<noteq> t)"
| "times_number (Infinity s) (Finite t b) = (if b = 0 then NaN else Infinity (s \<noteq> t))"
| "times_number (Finite s a) (Infinity t) = (if a = 0 then NaN else Infinity (s \<noteq> t))"
| "times_number NaN y = NaN"
| "times_number x NaN = NaN"

fun divide_number :: "number \<Rightarrow> number \<Rightarrow> number" where
  "divide_number (Finite s a) (Finite t b) =
     (if b = 0 then (if a = 0 then NaN else Infinity (s \<noteq> t)) else mkNumber (s \<noteq> t) (a / b))"
| "divide_number (Infinity s) (Infinity t) = NaN"
| "divide_number (Infinity s) (Finite t b) = Infinity (s \<noteq> t)"
| "divide_number (Finite s a) (Infinity t) = Finite (s \<noteq> t) 0"
| "divide_number NaN y = NaN"
| "divide_number x NaN = NaN"

text \<open>
  \<open>Math.round\<close>: the nearest integer, a tie going towards plus infinity; the sign of the
  argument is kept when the result is zero (\<open>Math.round(-0.2)\<close> is \<open>-0\<close>).
\<close>

fun Math_round :: "number \<Rightarrow> number" where
  "Math_round (Finite s m) = Finite s (of_int \<bar>\<lfloor>(if s then - m else m) + 1 / 2\<rfloor>\<bar>)"
| "Math_round x = x"

text \<open>
  \<open>Math.pow(10, x)\<close> for a scale exponent of the product metadata: an integer, or absent
  (\<open>Math.pow(10, undefined)\<close> is \<open>NaN\<close>). ECMAScript leaves the precision of \<open>Math.pow\<close>
  to the host (its result is implementation-approximated, unlike \<open>*\<close> and \<open>/\<close>), so the
  host's function is a parameter: \<open>pow e\<close> is the number that \<open>Math.pow(10, e)\<close> returns on
  the host, for the integer \<open>e\<close>.
\<close>

definition Math_pow10 :: "(int \<Rightarrow> number) \<Rightarrow> int option \<Rightarrow> number" where
  "Math_pow10 pow x = (case x of None \<Rightarrow> NaN | Some e \<Rightarrow> pow e)"

subsection \<open>parseFloat\<close>

definition isDigit :: "char \<Rightarrow> bool" where
  "isDigit c = (48 \<le> (of_char c :: nat) \<and> (of_char c :: nat) \<le> 57)"

definition digitValue :: "char \<Rightarrow> nat" where
  "digitValue c = of_char c - 48"

definition digitsValue :: "string \<Rightarrow> nat" where
  "digitsValue ds = foldl (\<lambda>a c. 10 * a + digitValue c) 0 ds"

text \<open>Tab, line feed, vertical tab, form feed, carriage return, space, no-break space.\<close>

definition isWhiteSpace :: "char \<Rightarrow> bool" where
  "isWhiteSpace c = ((of_char c :: nat) \<in> {9, 10, 11, 12, 13, 32, 160})"

definition splitSign :: "string \<Rightarrow> bool \<times> string" where
  "splitSign t =
     (case t of [] \<Rightarrow> (False, [])
      | c # r \<Rightarrow> if c = CHR ''-'' then (True, r) else if c = CHR ''+'' then (False, r) else (False, t))"

text \<open>An exponent part counts only when digits follow the \<open>e\<close> and its optional sign.\<close>

definition exponentPart :: "string \<Rightarrow> int" where
  "exponentPart t =
     (case t of [] \<Rightarrow> 0
      | c # r \<Rightarrow>
          if c = CHR ''e'' \<or> c = CHR ''E'' then
            (let (eneg, d) = splitSign r; ds = takeWhile isDigit d
             in if ds = [] then 0 else if eneg then - int (digitsValue ds) else int (digitsValue ds))
          else 0)"

text \<open>
  \<open>parseFloat\<close> skips leading white space and reads the longest prefix that is a decimal
  literal (a sign, then \<open>Infinity\<close> or digits with an optional fraction and exponent);
  without such a prefix the result is \<open>NaN\<close>. The value of the literal is rounded to the
  nearest double.
\<close>

definition parseFloat :: "string \<Rightarrow> number" where
  "parseFloat string =
     (let (neg, u) = splitSign (dropWhile isWhiteSpace string)
      in if prefix ''Infinity'' u then Infinity neg
         else
           let ip = takeWhile isDigit u; r1 = dropWhile isDigit u;
               (fp, r2) = (case r1 of [] \<Rightarrow> ([], [])
                           | c # r \<Rightarrow> if c = CHR ''.'' then (takeWhile isDigit r, dropWhile isDigit r)
                                      else ([], r1))
           in if ip = [] \<and> fp = [] then NaN
              else mkNumber neg
                     (of_nat (digitsValue (ip @ fp)) * 10 powi (exponentPart r2 - int (length fp))))"

subsection \<open>Number.prototype.toString\<close>

text \<open>\<open>decimalExponent m\<close> is the \<open>n\<close> with \<open>10 ^ (n - 1) \<le> m < 10 ^ n\<close>, for \<open>m > 0\<close>.\<close>

definition decimalExponent :: "rat \<Rightarrow> int" where
  "decimalExponent m =
     (if 1 \<le> m then int (floorlog 10 (nat \<lfloor>m\<rfloor>)) else 1 - int (floorlog 10 (nat (\<lceil>1 / m\<rceil> - 1))))"

text \<open>
  The decimals \<open>s * 10 ^ p\<close> with a given \<open>p\<close> that round to the double \<open>m\<close> are among the
  two that enclose \<open>m\<close>. \<open>nearestValid m p\<close> is the \<open>s\<close> of the one closest to \<open>m\<close> (the even
  one on a tie) among those of the two that round to \<open>m\<close>, if any does.
\<close>

definition nearestValid :: "rat \<Rightarrow> int \<Rightarrow> int option" where
  "nearestValid m p =
     (let lo = \<lfloor>m / 10 powi p\<rfloor>; hi = \<lceil>m / 10 powi p\<rceil>;
          okLo = (toDouble (of_int lo * 10 powi p) = Some m);
          okHi = (toDouble (of_int hi * 10 powi p) = Some m);
          dLo = m - of_int lo * 10 powi p; dHi = of_int hi * 10 powi p - m
      in if okLo \<and> okHi then Some (if dLo < dHi \<or> (dLo = dHi \<and> even lo) then lo else hi)
         else if okLo then Some lo
         else if okHi then Some hi
         else None)"

text \<open>
  The shortest decimal that rounds to \<open>m\<close>: one significant digit is tried first, then one
  more digit at a time. Seventeen digits identify any double, so the search that
  \<open>positiveToString\<close> starts with fuel 16 ends before the fuel does.
\<close>

fun shortestDecimal :: "nat \<Rightarrow> rat \<Rightarrow> int \<Rightarrow> int \<times> int" where
  "shortestDecimal 0 m p =
     (case nearestValid m p of Some s \<Rightarrow> (s, p) | None \<Rightarrow> (\<lfloor>m / 10 powi p\<rfloor>, p))"
| "shortestDecimal (Suc fuel) m p =
     (case nearestValid m p of Some s \<Rightarrow> (s, p) | None \<Rightarrow> shortestDecimal fuel m (p - 1))"

function stripZeros :: "int \<times> int \<Rightarrow> int \<times> int" where
  "stripZeros (s, p) = (if 0 < s \<and> s mod 10 = 0 then stripZeros (s div 10, p + 1) else (s, p))"
  by pat_completeness auto
termination
  by (relation "measure (\<lambda>(s, p). nat s)") auto

definition digitChar :: "nat \<Rightarrow> char" where
  "digitChar d = ''0123456789'' ! d"

fun digitsOf :: "nat \<Rightarrow> string" where
  "digitsOf n = (if n < 10 then [digitChar n] else digitsOf (n div 10) @ [digitChar (n mod 10)])"

text \<open>
  The digits \<open>ds\<close> of the shortest decimal, their number \<open>k\<close> and the position \<open>n\<close> of the
  decimal point give the string: plain digits, digits with a point, \<open>0.\<close> followed by zeros
  and the digits down to \<open>1e-6\<close>, and the exponent form below \<open>1e-6\<close> and from \<open>1e21\<close> on.
\<close>

definition positiveToString :: "rat \<Rightarrow> string" where
  "positiveToString m =
     (let n0 = decimalExponent m;
          (s, p) = stripZeros (shortestDecimal 16 m (n0 - 1));
          ds = digitsOf (nat s); k = int (length ds); n = p + k
      in if k \<le> n \<and> n \<le> 21 then ds @ replicate (nat (n - k)) CHR ''0''
         else if 0 < n \<and> n \<le> 21 then take (nat n) ds @ ''.'' @ drop (nat n) ds
         else if - 6 < n \<and> n \<le> 0 then ''0.'' @ replicate (nat (- n)) CHR ''0'' @ ds
         else (if k = 1 then ds else take 1 ds @ ''.'' @ drop 1 ds)
              @ ''e'' @ (if 0 \<le> n - 1 then ''+'' else ''-'') @ digitsOf (nat \<bar>n - 1\<bar>))"

fun toString :: "number \<Rightarrow> string" where
  "toString NaN = ''NaN''"
| "toString (Infinity neg) = (if neg then ''-Infinity'' else ''Infinity'')"
| "toString (Finite neg m) =
     (if m = 0 then ''0'' else (if neg then ''-'' else '''') @ positiveToString m)"

section \<open>Product information cache (product-info.ts)\<close>

record ProductInfo =
  symbol :: string
  contractType :: ContractType
  priceScale :: number
  ratioScale :: number
  valueScale :: number
  contractSize :: number

text \<open>
  The entries of the \<open>/public/products\<close> response. A scale exponent is an integer, or \<open>None\<close>
  when the field is absent from the entry.
\<close>

record RawCurrency =
  currency :: string
  valueScale :: "int option"

record RawProduct =
  symbol :: string
  type :: string
  status :: string
  settleCurrency :: string
  priceScale :: "int option"
  ratioScale :: "int option"
  contractSize :: "number option"

record RawProductV2 =
  symbol :: string
  type :: string
  status :: string
  settleCurrency :: string
  priceScale :: "int option"
  ratioScale :: "int option"

text \<open>
  A list field of the response: absent (or \<open>null\<close>), an array, or another value, which a
  \<open>for ... of\<close> loop cannot iterate. An array entry is an object of the declared shape or
  \<open>null\<close> (\<open>None\<close>), whose properties cannot be read.
\<close>

datatype 'a items = Absent | NotIterable | Items "'a option list"

record ProductsData =
  currencies :: "RawCurrency items"
  products :: "RawProduct items"
  perpProductsV2 :: "RawProductV2 items"

text \<open>
  What \<open>init\<close> gets from the network: \<open>FetchFailed\<close> when \<open>fetch\<close> or \<open>res.json()\<close> throws or
  the body is not an object, otherwise the envelope with its \<open>code\<close> (any value other than
  the number 0 counts as a non-zero code) and its \<open>data\<close>, which is \<open>None\<close> when the
  envelope has no \<open>data\<close> object.
\<close>

datatype FetchResult = FetchFailed | FetchResponse int "ProductsData option"

record ProductInfoCache =
  baseUrl :: string
  cache :: "string \<rightharpoonup> ProductInfo"
  loaded :: bool
  currencyScales :: "string \<rightharpoonup> number"

definition constructor :: "string \<Rightarrow> ProductInfoCache" where
  "constructor url = \<lparr>baseUrl = url, cache = Map.empty, loaded = False, currencyScales = Map.empty\<rparr>"

text \<open>The test \<open>p.priceScale ? ... : 1\<close>: an absent exponent and the exponent 0 are falsy.\<close>

definition truthy :: "int option \<Rightarrow> bool" where
  "truthy x = (case x of None \<Rightarrow> False | Some e \<Rightarrow> e \<noteq> 0)"

text \<open>
  The entries that \<open>for (const x of xs ?? [])\<close> visits, or \<open>None\<close> when the loop throws
  before its first round.
\<close>

definition iterate :: "'a items \<Rightarrow> 'a option list option" where
  "iterate xs = (case xs of Absent \<Rightarrow> Some [] | NotIterable \<Rightarrow> None | Items l \<Rightarrow> Some l)"

text \<open>
  The three loops of \<open>init\<close>, over the currencies, the products and the V2 products. Each
  writes into its map entry by entry and stops at a \<open>null\<close> entry, where reading a property
  throws: the result is the map as the loop leaves it, with whether the loop came to its end.
\<close>

fun setCurrencies ::
  "(int \<Rightarrow> number) \<Rightarrow> (string \<rightharpoonup> number) \<Rightarrow> RawCurrency option list \<Rightarrow>
     bool \<times> (string \<rightharpoonup> number)" where
  "setCurrencies pow scales [] = (True, scales)"
| "setCurrencies pow scales (None # rest) = (False, scales)"
| "setCurrencies pow scales (Some c # rest) =
     setCurrencies pow (scales(currency c \<mapsto> Math_pow10 pow (RawCurrency.valueScale c))) rest"

fun setProducts ::
  "(int \<Rightarrow> number) \<Rightarrow> (string \<rightharpoonup> number) \<Rightarrow> (string \<rightharpoonup> ProductInfo) \<Rightarrow>
     RawProduct option list \<Rightarrow> bool \<times> (string \<rightharpoonup> ProductInfo)" where
  "setProducts pow scales entries [] = (True, entries)"
| "setProducts pow scales entries (None # rest) = (False, entries)"
| "setProducts pow scales entries (Some p # rest) =
     setProducts pow scales
       (if RawProduct.status p \<noteq> ''Listed'' then entries
        else if RawProduct.type p = ''Perpetual'' then
          entries(RawProduct.symbol p \<mapsto>
            \<lparr>ProductInfo.symbol = RawProduct.symbol p, contractType = Inverse,
             priceScale = Math_pow10 pow (RawProduct.priceScale p),
             ratioScale = Math_pow10 pow (RawProduct.ratioScale p),
             valueScale = (case scales (RawProduct.settleCurrency p) of
                             None \<Rightarrow> Math_pow10 pow (Some 8) | Some v \<Rightarrow> v),
             contractSize = (case RawProduct.contractSize p of
                               None \<Rightarrow> Finite False 1 | Some n \<Rightarrow> n)\<rparr>)
        else if RawProduct.type p = ''Spot'' then
          entries(RawProduct.symbol p \<mapsto>
            \<lparr>ProductInfo.symbol = RawProduct.symbol p, contractType = Spot,
             priceScale = Math_pow10 pow (RawProduct.priceScale p),
             ratioScale = Math_pow10 pow (RawProduct.ratioScale p),
             valueScale = (case scales (RawProduct.settleCurrency p) of
                             None \<Rightarrow> Math_pow10 pow (Some 8) | Some v \<Rightarrow> v),
             contractSize = Finite False 1\<rparr>)
        else entries)
       rest"

fun setProductsV2 ::
  "(int \<Rightarrow> number) \<Rightarrow> (string \<rightharpoonup> ProductInfo) \<Rightarrow> RawProductV2 option list \<Rightarrow>
     bool \<times> (string \<rightharpoonup> ProductInfo)" where
  "setProductsV2 pow entries [] = (True, entries)"
| "setProductsV2 pow entries (None # rest) = (False, entries)"
| "setProductsV2 pow entries (Some p # rest) =
     setProductsV2 pow
       (if RawProductV2.status p = ''Listed'' then
          entries(RawProductV2.symbol p \<mapsto>
            \<lparr>ProductInfo.symbol = RawProductV2.symbol p, contractType = Linear,
             priceScale = (if truthy (RawProductV2.priceScale p)
                           then Math_pow10 pow (RawProductV2.priceScale p) else Finite False 1),
             ratioScale = (if truthy (RawProductV2.ratioScale p)
                           then Math_pow10 pow (RawProductV2.ratioScale p) else Finite False 1),
             valueScale = Finite False 1,
             contractSize = Finite False 1\<rparr>)
        else entries)
       rest"

text \<open>
  \<open>init\<close> on the host with \<open>Math.pow(10, e) = pow e\<close> returns the cache as it leaves it. The
  \<open>try\<close> block spans the fetch, the three loops and \<open>this.loaded = true\<close>, and the \<open>catch\<close>
  swallows whatever is thrown: a failed fetch, a non-zero code and a missing \<open>data\<close> leave the
  cache as it was, and a throw in or between the loops leaves what was written until then,
  with \<open>loaded\<close> untouched.
\<close>

fun init :: "(int \<Rightarrow> number) \<Rightarrow> ProductInfoCache \<Rightarrow> FetchResult \<Rightarrow> ProductInfoCache" where
  "init pow c FetchFailed = c"
| "init pow c (FetchResponse code None) = c"
| "init pow c (FetchResponse code (Some d)) =
     (if code \<noteq> 0 then c
      else case iterate (currencies d) of
        None \<Rightarrow> c
      | Some cs \<Rightarrow>
          let (done1, scales) = setCurrencies pow (currencyScales c) cs;
              c1 = c\<lparr>currencyScales := scales\<rparr>
          in if \<not> done1 then c1
             else case iterate (products d) of
               None \<Rightarrow> c1
             | Some ps \<Rightarrow>
                 let (done2, entries) = setProducts pow scales (cache c1) ps;
                     c2 = c1\<lparr>cache := entries\<rparr>
                 in if \<not> done2 then c2
                    else case iterate (perpProductsV2 d) of
                      None \<Rightarrow> c2
                    | Some vs \<Rightarrow>
                        let (done3, entries') = setProductsV2 pow entries vs;
                            c3 = c2\<lparr>cache := entries'\<rparr>
                        in if \<not> done3 then c3 else c3\<lparr>loaded := True\<rparr>)"

definition isLoaded :: "ProductInfoCache \<Rightarrow> bool" where
  "isLoaded c = loaded c"

definition get :: "ProductInfoCache \<Rightarrow> string \<Rightarrow> ProductInfo option" where
  "get c symb = cache c symb"

text \<open>The scaling operations throw \<open>Error(message)\<close> or return their value.\<close>

datatype error = Error string

definition scalePrice :: "ProductInfoCache \<Rightarrow> string \<Rightarrow> string \<Rightarrow> error + number" where
  "scalePrice c symb decimal =
     (case cache c symb of
        None \<Rightarrow> Inl (Error (''No product info for '' @ symb))
      | Some info \<Rightarrow> Inr (Math_round (times_number (parseFloat decimal) (ProductInfo.priceScale info))))"

definition scaleRatio :: "ProductInfoCache \<Rightarrow> string \<Rightarrow> string \<Rightarrow> error + number" where
  "scaleRatio c symb decimal =
     (case cache c symb of
        None \<Rightarrow> Inl (Error (''No product info for '' @ symb))
      | Some info \<Rightarrow> Inr (Math_round (times_number (parseFloat decimal) (ProductInfo.ratioScale info))))"

definition scaleValue :: "ProductInfoCache \<Rightarrow> string \<Rightarrow> string \<Rightarrow> error + number" where
  "scaleValue c symb decimal =
     (case cache c symb of
        None \<Rightarrow> Inl (Error (''No product info for '' @ symb))
      | Some info \<Rightarrow> Inr (Math_round (times_number (parseFloat decimal) (ProductInfo.valueScale info))))"

definition unscalePrice :: "ProductInfoCache \<Rightarrow> string \<Rightarrow> number \<Rightarrow> error + string" where
  "unscalePrice c symb scaled =
     (case cache c symb of
        None \<Rightarrow> Inl (Error (''No product info for '' @ symb))
      | Some info \<Rightarrow> Inr (toString (divide_number scaled (ProductInfo.priceScale info))))"

definition scaleCurrencyAmount :: "ProductInfoCache \<Rightarrow> string \<Rightarrow> string \<Rightarrow> error + number" where
  "scaleCurrencyAmount c ccy decimal =
     (case currencyScales c ccy of
        None \<Rightarrow> Inl (Error (''No currency info for '' @ ccy))
      | Some scale \<Rightarrow> Inr (Math_round (times_number (parseFloat decimal) scale)))"

definition unscaleCurrencyAmount :: "ProductInfoCache \<Rightarrow> string \<Rightarrow> number \<Rightarrow> error + string" where
  "unscaleCurrencyAmount c ccy amountEv =
     (case currencyScales c ccy of
        None \<Rightarrow> Inl (Error (''No currency info for '' @ ccy))
      | Some scale \<Rightarrow> Inr (toString (divide_number amountEv scale)))"

section \<open>Response conversion\<close>

text \<open>
  The values \<open>convertResponse\<close> receives. An object is the list of its own enumerable
  properties in the order of \<open>Object.entries\<close>.
\<close>

datatype json =
    JUndefined | JNull | JBoolean bool | JNumber number | JString string
  | JArray "json list" | JObject "(string \<times> json) list"

text \<open>\<open>typeof v === "number"\<close>\<close>

definition isNumber :: "json \<Rightarrow> bool" where
  "isNumber v = (case v of JNumber n \<Rightarrow> True | _ \<Rightarrow> False)"

text \<open>\<open>typeof v === "object"\<close>, which holds of \<open>null\<close>, of arrays and of objects.\<close>

definition isObject :: "json \<Rightarrow> bool" where
  "isObject v = (case v of JNull \<Rightarrow> True | JArray xs \<Rightarrow> True | JObject obj \<Rightarrow> True | _ \<Rightarrow> False)"

definition numberOf :: "json \<Rightarrow> number" where
  "numberOf v = (case v of JNumber n \<Rightarrow> n | _ \<Rightarrow> NaN)"

text \<open>
  \<open>key in obj\<close>. The operator also looks at \<open>Object.prototype\<close>, none of whose property
  names ends in \<open>Ep\<close>, \<open>Er\<close> or \<open>Ev\<close>, so for the keys the code asks about it is the test for
  an own property.
\<close>

definition hasProperty :: "(string \<times> json) list \<Rightarrow> string \<Rightarrow> bool" where
  "hasProperty obj key = (key \<in> fst ` set obj)"

text \<open>
  \<open>result[key] = v\<close> on the object literal \<open>result\<close>. Assigning to \<open>__proto__\<close> calls the
  setter of \<open>Object.prototype\<close> and creates no own property. An existing property keeps its
  place; a new one goes after the others, except that array-index keys (canonical decimal
  integers below \<open>2 ^ 32 - 1\<close>) come first, in ascending order.
\<close>

definition isArrayIndex :: "string \<Rightarrow> bool" where
  "isArrayIndex key =
     (key \<noteq> [] \<and> list_all isDigit key \<and> (key = ''0'' \<or> hd key \<noteq> CHR ''0'')
      \<and> digitsValue key < 2 ^ 32 - 1)"

fun insertIndex :: "string \<Rightarrow> json \<Rightarrow> (string \<times> json) list \<Rightarrow> (string \<times> json) list" where
  "insertIndex key v [] = [(key, v)]"
| "insertIndex key v ((k, w) # rest) =
     (if isArrayIndex k \<and> digitsValue k < digitsValue key then (k, w) # insertIndex key v rest
      else (key, v) # (k, w) # rest)"

definition setProperty :: "(string \<times> json) list \<Rightarrow> string \<Rightarrow> json \<Rightarrow> (string \<times> json) list" where
  "setProperty obj key v =
     (if key = ''__proto__'' then obj
      else if hasProperty obj key then AList.update key v obj
      else if isArrayIndex key then insertIndex key v obj
      else obj @ [(key, v)])"

text \<open>\<open>s.slice(0, -n)\<close>\<close>

definition slice0 :: "string \<Rightarrow> nat \<Rightarrow> string" where
  "slice0 s n = take (length s - n) s"

text \<open>\<open>(value / scale).toString()\<close>\<close>

definition unscaled :: "json \<Rightarrow> number \<Rightarrow> json" where
  "unscaled v scale = JString (toString (divide_number (numberOf v) scale))"

text \<open>
  \<open>convertResponse\<close>, with the loop over \<open>Object.entries(obj)\<close> as \<open>convertEntries\<close>: \<open>obj\<close>
  is the object being converted, the list after it the entries still to visit, and \<open>result\<close>
  the object built so far.
\<close>

function convertResponse :: "ProductInfoCache \<Rightarrow> string \<Rightarrow> json \<Rightarrow> json"
  and convertEntries ::
    "ProductInfoCache \<Rightarrow> string \<Rightarrow> ProductInfo \<Rightarrow> (string \<times> json) list \<Rightarrow>
       (string \<times> json) list \<Rightarrow> (string \<times> json) list \<Rightarrow> (string \<times> json) list"
  where
  "convertResponse c symb JNull = JNull"
| "convertResponse c symb JUndefined = JUndefined"
| "convertResponse c symb (JArray items) = JArray (map (convertResponse c symb) items)"
| "convertResponse c symb (JBoolean b) = JBoolean b"
| "convertResponse c symb (JNumber n) = JNumber n"
| "convertResponse c symb (JString str) = JString str"
| "convertResponse c symb (JObject obj) =
     (case cache c symb of
        None \<Rightarrow> JObject obj
      | Some info \<Rightarrow> JObject (convertEntries c symb info obj obj []))"
| "convertEntries c symb info obj [] result = result"
| "convertEntries c symb info obj ((key, value) # rest) result =
     convertEntries c symb info obj rest
       (if endsWith key ''Ep'' \<and> isNumber value then
          setProperty result (slice0 key 2) (unscaled value (ProductInfo.priceScale info))
        else if endsWith key ''Er'' \<and> isNumber value then
          setProperty result (slice0 key 2) (unscaled value (ProductInfo.ratioScale info))
        else if endsWith key ''Ev'' \<and> isNumber value then
          setProperty result (slice0 key 2) (unscaled value (ProductInfo.valueScale info))
        else if hasProperty obj (key @ ''Ep'') \<or> hasProperty obj (key @ ''Er'')
                \<or> hasProperty obj (key @ ''Ev'') then result
        else if value \<noteq> JNull \<and> isObject value then
          setProperty result key (convertResponse c symb value)
        else setProperty result key value)"
  by pat_completeness auto
termination
  apply (relation "measure (\<lambda>x. case x of
           Inl (c, symb, v) \<Rightarrow> 2 * size v
         | Inr (c, symb, info, obj, entries, result) \<Rightarrow>
             2 * size_list (size_prod (\<lambda>_. 0) size) entries + 1)")
  subgoal by simp
  subgoal for c symb items x
    using size_list_estimation' [of x items "size x" size] by simp
  subgoal by simp
  subgoal by simp
  subgoal by simp
  done

section \<open>The population of the cache and its scale factors\<close>

text \<open>A list field over which the loop of \<open>init\<close> runs to its end, and its entries that are objects.\<close>

definition complete :: "'a items \<Rightarrow> bool" where
  "complete xs = (case xs of Absent \<Rightarrow> True | NotIterable \<Rightarrow> False | Items l \<Rightarrow> None \<notin> set l)"

definition present :: "'a items \<Rightarrow> 'a list" where
  "present xs = (case xs of Items l \<Rightarrow> [x. Some x \<leftarrow> l] | _ \<Rightarrow> [])"

text \<open>
  The fetch results with which nothing is thrown and \<open>init\<close> does not return early: the code
  is 0, there is a \<open>data\<close> object, and each of the three loops runs to its end.
\<close>

definition populates :: "FetchResult \<Rightarrow> bool" where
  "populates r =
     (case r of
        FetchFailed \<Rightarrow> False
      | FetchResponse code None \<Rightarrow> False
      | FetchResponse code (Some d) \<Rightarrow>
          code = 0 \<and> complete (currencies d) \<and> complete (products d)
          \<and> complete (perpProductsV2 d))"

text \<open>A positive integer: a finite number, at least 1, without fractional part.\<close>

definition isPositiveInteger :: "number \<Rightarrow> bool" where
  "isPositiveInteger x =
     (case x of Finite neg m \<Rightarrow> \<not> neg \<and> 1 \<le> m \<and> of_int \<lfloor>m\<rfloor> = m | _ \<Rightarrow> False)"

text \<open>The magnitude \<open>m\<close> is that of a double: rounding leaves it as it is.\<close>

definition isDouble :: "rat \<Rightarrow> bool" where
  "isDouble m = (toDouble m = Some m)"

text \<open>
  What the scale factors need of the host at the exponent \<open>e\<close>: \<open>Math.pow(10, e)\<close> is a
  positive double that differs from the power of ten by at most \<open>2 ^ - 50\<close> of it, and is the
  power itself when that is a double. A host is accurate when this holds of the exponents
  from 0 to 308, those of the powers of ten below the largest double.
\<close>

definition accurateAt :: "(int \<Rightarrow> number) \<Rightarrow> int \<Rightarrow> bool" where
  "accurateAt pow e =
     (case pow e of
        Finite neg r \<Rightarrow>
          \<not> neg \<and> isDouble r \<and> \<bar>r - 10 powi e\<bar> * 2 ^ 50 \<le> 10 powi e
          \<and> (isDouble (10 powi e) \<longrightarrow> r = 10 powi e)
      | _ \<Rightarrow> False)"

definition accurate :: "(int \<Rightarrow> number) \<Rightarrow> bool" where
  "accurate pow = (\<forall>e \<in> {0..308}. accurateAt pow e)"

text \<open>An exponent that the response reports: present, and between 0 and 308.\<close>

definition reported :: "int option \<Rightarrow> bool" where
  "reported x = (case x of None \<Rightarrow> False | Some e \<Rightarrow> 0 \<le> e \<and> e \<le> 308)"

text \<open>
  The invariants of the two loops that store entries. An entry of the first is an inverse or
  spot entry whose value factor is that of the settlement currency of a product of the list
  with the symbol, or \<open>Math.pow(10, 8)\<close> when \<open>scales\<close> has none. An entry of the second is
  such an entry, or a linear one with the value factor 1 and the price and ratio factors that
  \<open>init\<close> derives from a V2 product of the list with the symbol.
\<close>

definition goodScales :: "(string \<rightharpoonup> number) \<Rightarrow> bool" where
  "goodScales scales = (\<forall>k v. scales k = Some v \<longrightarrow> isPositiveInteger v)"

definition goodInfo :: "ProductInfo \<Rightarrow> bool" where
  "goodInfo info =
     (isPositiveInteger (ProductInfo.priceScale info)
      \<and> isPositiveInteger (ProductInfo.ratioScale info)
      \<and> isPositiveInteger (ProductInfo.valueScale info))"

definition fromProduct ::
  "(int \<Rightarrow> number) \<Rightarrow> (string \<rightharpoonup> number) \<Rightarrow> RawProduct option list \<Rightarrow> string \<Rightarrow>
     ProductInfo \<Rightarrow> bool" where
  "fromProduct pow scales ps s info =
     (goodInfo info \<and> contractType info \<noteq> Linear
      \<and> (\<exists>p. Some p \<in> set ps \<and> RawProduct.symbol p = s
            \<and> ProductInfo.valueScale info =
                (case scales (RawProduct.settleCurrency p) of
                   None \<Rightarrow> Math_pow10 pow (Some 8) | Some v \<Rightarrow> v)))"

definition fromProductV2 ::
  "(int \<Rightarrow> number) \<Rightarrow> RawProductV2 option list \<Rightarrow> string \<Rightarrow> ProductInfo \<Rightarrow> bool" where
  "fromProductV2 pow vs s info =
     (goodInfo info \<and> contractType info = Linear \<and> ProductInfo.valueScale info = Finite False 1
      \<and> (\<exists>p. Some p \<in> set vs \<and> RawProductV2.symbol p = s
            \<and> ProductInfo.priceScale info =
                (if truthy (RawProductV2.priceScale p)
                 then Math_pow10 pow (RawProductV2.priceScale p) else Finite False 1)
            \<and> ProductInfo.ratioScale info =
                (if truthy (RawProductV2.ratioScale p)
                 then Math_pow10 pow (RawProductV2.ratioScale p) else Finite False 1)))"

section \<open>Scaled fields and sample metadata\<close>

text \<open>
  An entry that the first three branches of the loop of \<open>convertResponse\<close> convert: its key
  ends in one of the three suffixes and its value is a number.
\<close>

definition isScaledField :: "string \<Rightarrow> json \<Rightarrow> bool" where
  "isScaledField key v =
     (isNumber v \<and> (endsWith key ''Ep'' \<or> endsWith key ''Er'' \<or> endsWith key ''Ev''))"

text \<open>
  The host of the examples returns the double nearest to the power of ten. The examples call
  it at the exponents 4 and 8, where the power is a double, and at 309, where it overflows.
\<close>

definition roundedPow :: "int \<Rightarrow> number" where
  "roundedPow e = mkNumber False (10 powi e)"

text \<open>
  A products response with an inverse, a spot and a linear product, and the cache that
  \<open>init\<close> builds from it.
\<close>

definition sampleData :: ProductsData where
  "sampleData =
     \<lparr>currencies = Items [Some \<lparr>currency = ''BTC'', valueScale = Some 8\<rparr>,
                          Some \<lparr>currency = ''USDT'', valueScale = Some 8\<rparr>],
      products = Items [Some \<lparr>RawProduct.symbol = ''BTCUSD'', type = ''Perpetual'',
                          status = ''Listed'', settleCurrency = ''BTC'', priceScale = Some 4,
                          ratioScale = Some 8, contractSize = Some (Finite False 1)\<rparr>,
                        Some \<lparr>RawProduct.symbol = ''sBTCUSDT'', type = ''Spot'',
                          status = ''Listed'', settleCurrency = ''USDT'', priceScale = Some 8,
                          ratioScale = Some 8, contractSize = None\<rparr>],
      perpProductsV2 = Items [Some \<lparr>RawProductV2.symbol = ''BTCUSDT'', type = ''PerpetualV2'',
                                status = ''Listed'', settleCurrency = ''USDT'',
                                priceScale = Some 0, ratioScale = None\<rparr>]\<rparr>"

definition sampleCache :: ProductInfoCache where
  "sampleCache =
     init roundedPow (constructor ''https://api.phemex.com'') (FetchResponse 0 (Some sampleData))"

text \<open>
  A response that takes the fallbacks: the settlement currency of the inverse product is not
  among the currencies, and the V2 product reports no exponent.
\<close>

definition fallbackData :: ProductsData where
  "fallbackData =
     \<lparr>currencies = Items [Some \<lparr>currency = ''BTC'', valueScale = Some 8\<rparr>],
      products = Items [Some \<lparr>RawProduct.symbol = ''ETHUSD'', type = ''Perpetual'',
                          status = ''Listed'', settleCurrency = ''ETH'', priceScale = Some 4,
                          ratioScale = Some 8, contractSize = None\<rparr>],
      perpProductsV2 = Items [Some \<lparr>RawProductV2.symbol = ''ETHUSDT'', type = ''PerpetualV2'',
                                status = ''Listed'', settleCurrency = ''USDT'',
                                priceScale = None, ratioScale = None\<rparr>]\<rparr>"

text \<open>
  A response whose second product is \<open>null\<close>: reading its \<open>status\<close> throws after the first
  product has been stored.
\<close>

definition brokenData :: ProductsData where
  "brokenData =
     \<lparr>currencies = Items [Some \<lparr>currency = ''BTC'', valueScale = Some 8\<rparr>],
      products = Items [Some \<lparr>RawProduct.symbol = ''BTCUSD'', type = ''Perpetual'',
                          status = ''Listed'', settleCurrency = ''BTC'', priceScale = Some 4,
                          ratioScale = Some 8, contractSize = None\<rparr>,
                        None],
      perpProductsV2 = Absent\<rparr>"

text \<open>A response with one inverse product, which reports the price exponent \<open>x\<close> or none.\<close>

definition inverseData :: "int option \<Rightarrow> ProductsData" where
  "inverseData x =
     \<lparr>currencies = Absent,
      products = Items [Some \<lparr>RawProduct.symbol = ''BTCUSD'', type = ''Perpetual'',
                          status = ''Listed'', settleCurrency = ''BTC'', priceScale = x,
                          ratioScale = Some 8, contractSize = None\<rparr>],
      perpProductsV2 = Absent\<rparr>"

section \<open>Canonical decimal strings\<close>

text \<open>
  The decimal \<open>N / 10 ^ j\<close> written as the round trip of the specification expects it, in
  canonical form without padding: the digits of \<open>N\<close> without its trailing zeros, with the
  decimal point in its place, zeros after the digits of an integer, \<open>0.\<close> and zeros before the
  digits of a value below 1, and \<open>0\<close> for zero. \<open>plainDecimal ds n\<close> places the point after
  \<open>n\<close> digits of \<open>ds\<close>. These two definitions follow the wording of the specification, not
  the code.
\<close>

definition plainDecimal :: "string \<Rightarrow> int \<Rightarrow> string" where
  "plainDecimal ds n =
     (let k = int (length ds)
      in if k \<le> n then ds @ replicate (nat (n - k)) CHR ''0''
         else if 0 < n then take (nat n) ds @ ''.'' @ drop (nat n) ds
         else ''0.'' @ replicate (nat (- n)) CHR ''0'' @ ds)"

definition decimalString :: "nat \<Rightarrow> nat \<Rightarrow> string" where
  "decimalString N j =
     (if N = 0 then ''0''
      else let (s, p) = stripZeros (int N, - int j); ds = digitsOf (nat s)
           in plainDecimal ds (p + int (length ds)))"

section \<open>Properties of the contract router\<close>

lemma mentions_append: "mentions t w \<Longrightarrow> mentions (a @ b @ t) w"
  unfolding mentions_def sublist_def by (metis append.assoc)

lemma mentions_linear:
  \<open>mentions '' looks like a USDT-M symbol. Use contractType="linear" for USDT-M symbols.''
     ''linear''\<close>
proof -
  have \<open>sublist ''linear'' ('' looks like a USDT-M symbol. Use contractType="'' @ ''linear'' @
        ''" for USDT-M symbols.'')\<close>
    by (rule sublist_appendI)
  then show ?thesis
    unfolding mentions_def by simp
qed

lemma mentions_inverse:
  \<open>mentions '' looks like a Coin-M symbol. Use contractType="inverse" for Coin-M symbols.''
     ''inverse''\<close>
proof -
  have \<open>sublist ''inverse'' ('' looks like a Coin-M symbol. Use contractType="'' @ ''inverse'' @
        ''" for Coin-M symbols.'')\<close>
    by (rule sublist_appendI)
  then show ?thesis
    unfolding mentions_def by simp
qed

text \<open>
  C5 (suffix precedence of symbol validation). The four cases of the tests, with the error
  strings the code builds, and the general fact behind them: a symbol that ends in \<open>USDT\<close>
  is accepted for linear and is reported as a USDT-M (linear) symbol for inverse; it never
  gets the Coin-M message, although it may also end in \<open>USD\<close>-followed-by-\<open>T\<close>.
\<close>

theorem validateSymbol_suffix_precedence:
  \<open>validateSymbol Inverse ''BTCUSDT'' =
      Some ''Symbol BTCUSDT looks like a USDT-M symbol. Use contractType="linear" for USDT-M symbols.''
   \<and> mentions (the (validateSymbol Inverse ''BTCUSDT'')) ''linear''
   \<and> validateSymbol Linear ''BTCUSD'' =
      Some ''Symbol BTCUSD looks like a Coin-M symbol. Use contractType="inverse" for Coin-M symbols.''
   \<and> mentions (the (validateSymbol Linear ''BTCUSD'')) ''inverse''
   \<and> validateSymbol Inverse ''BTCUSD'' = None
   \<and> validateSymbol Linear ''BTCUSDT'' = None
   \<and> (\<forall>s. endsWith s ''USDT'' \<longrightarrow>
          validateSymbol Linear s = None
        \<and> validateSymbol Spot s = None
        \<and> (\<exists>m. validateSymbol Inverse s = Some m \<and> mentions m ''linear''))\<close>
proof -
  have e1: "endsWith ''BTCUSDT'' ''USDT''" "\<not> endsWith ''BTCUSD'' ''USDT''"
    "endsWith ''BTCUSD'' ''USD''"
    by (simp_all add: endsWith_def suffix_to_prefix)
  have a: \<open>validateSymbol Inverse ''BTCUSDT'' =
      Some ''Symbol BTCUSDT looks like a USDT-M symbol. Use contractType="linear" for USDT-M symbols.''\<close>
    using e1 by (simp add: validateSymbol_def)
  have b: \<open>validateSymbol Linear ''BTCUSD'' =
      Some ''Symbol BTCUSD looks like a Coin-M symbol. Use contractType="inverse" for Coin-M symbols.''\<close>
    using e1 by (simp add: validateSymbol_def)
  have c: "validateSymbol Inverse ''BTCUSD'' = None" "validateSymbol Linear ''BTCUSDT'' = None"
    using e1 by (simp_all add: validateSymbol_def)
  have ml: "mentions (''Symbol '' @ s @
      '' looks like a USDT-M symbol. Use contractType=\"linear\" for USDT-M symbols.'') ''linear''"
    for s
    by (rule mentions_append [OF mentions_linear])
  have mi: "mentions (''Symbol '' @ s @
      '' looks like a Coin-M symbol. Use contractType=\"inverse\" for Coin-M symbols.'') ''inverse''"
    for s
    by (rule mentions_append [OF mentions_inverse])
  have a': "mentions (the (validateSymbol Inverse ''BTCUSDT'')) ''linear''"
    using e1 ml [of "''BTCUSDT''"] by (simp add: validateSymbol_def)
  have b': "mentions (the (validateSymbol Linear ''BTCUSD'')) ''inverse''"
    using e1 mi [of "''BTCUSD''"] by (simp add: validateSymbol_def)
  have g: "validateSymbol Linear s = None \<and> validateSymbol Spot s = None
        \<and> (\<exists>m. validateSymbol Inverse s = Some m \<and> mentions m ''linear'')"
    if h: "endsWith s ''USDT''" for s
  proof -
    have raw: "endsWith (if startsWith s ''s'' then drop 1 s else s) ''USDT''"
    proof (cases "startsWith s ''s''")
      case True
      then obtain r where s: "s = CHR ''s'' # r"
        by (auto simp: startsWith_def prefix_def)
      from h obtain zs where z: "s = zs @ ''USDT''"
        by (auto simp: endsWith_def suffix_def)
      have "zs \<noteq> []" using s z by auto
      then obtain z0 zr where "zs = z0 # zr" by (cases zs) auto
      with s z have "r = zr @ ''USDT''" by simp
      then show ?thesis using True s by (simp add: endsWith_def suffix_def)
    next
      case False
      then show ?thesis using h by simp
    qed
    show ?thesis
      using h raw ml [of s] by (simp add: validateSymbol_def Let_def)
  qed
  show ?thesis
    apply (intro conjI allI impI)
    subgoal by (rule a)
    subgoal by (rule a')
    subgoal by (rule b)
    subgoal by (rule b')
    subgoal by (rule c(1))
    subgoal by (rule c(2))
    subgoal for s by (rule g [THEN conjunct1])
    subgoal for s by (rule g [THEN conjunct2, THEN conjunct1])
    subgoal for s by (rule g [THEN conjunct2, THEN conjunct2])
    done
qed

theorem validateSymbol_suffix_precedence_witness:
  "endsWith ''ETHUSDT'' ''USDT''
   \<and> validateSymbol Linear ''ETHUSDT'' = None
   \<and> validateSymbol Spot ''ETHUSDT'' = None
   \<and> (\<exists>m. validateSymbol Inverse ''ETHUSDT'' = Some m \<and> mentions m ''linear'')"
proof -
  have h: "endsWith ''ETHUSDT'' ''USDT''"
    by (simp add: endsWith_def suffix_to_prefix)
  have "\<forall>s. endsWith s ''USDT'' \<longrightarrow>
          validateSymbol Linear s = None
        \<and> validateSymbol Spot s = None
        \<and> (\<exists>m. validateSymbol Inverse s = Some m \<and> mentions m ''linear'')"
    using validateSymbol_suffix_precedence by (elim conjE)
  from this [rule_format, OF h] h show ?thesis
    by (intro conjI) (elim conjE, assumption)+
qed

text \<open>
  C6 (endpoint routing). Placing an order resolves to \<open>/g-orders/create\<close> for linear and to
  \<open>/orders/create\<close> for inverse: two different paths, the first in the \<open>/g-orders/\<close>
  namespace, which no inverse or spot operation uses, the second in the \<open>/orders/\<close>
  namespace, which no linear or spot operation uses. For spot, set-leverage,
  switch-position-mode and account resolve to the empty string, the "unsupported" sentinel.
\<close>

theorem getEndpoint_routing:
  "getEndpoint Linear PlaceOrder = ''/g-orders/create''
   \<and> getEndpoint Inverse PlaceOrder = ''/orders/create''
   \<and> getEndpoint Linear PlaceOrder \<noteq> getEndpoint Inverse PlaceOrder
   \<and> startsWith (getEndpoint Linear PlaceOrder) ''/g-orders/''
   \<and> startsWith (getEndpoint Inverse PlaceOrder) ''/orders/''
   \<and> (\<forall>operation. \<not> startsWith (getEndpoint Inverse operation) ''/g-orders/'')
   \<and> (\<forall>operation. \<not> startsWith (getEndpoint Spot operation) ''/g-orders/'')
   \<and> (\<forall>operation. \<not> startsWith (getEndpoint Linear operation) ''/orders/'')
   \<and> (\<forall>operation. \<not> startsWith (getEndpoint Spot operation) ''/orders/'')
   \<and> getEndpoint Spot SetLeverage = ''''
   \<and> getEndpoint Spot SwitchPosMode = ''''
   \<and> getEndpoint Spot Account = ''''"
proof -
  have i: "\<not> startsWith (getEndpoint Inverse operation) ''/g-orders/''" for operation
    by (cases operation) (simp_all add: getEndpoint_def startsWith_def)
  have s: "\<not> startsWith (getEndpoint Spot operation) ''/g-orders/''" for operation
    by (cases operation) (simp_all add: getEndpoint_def startsWith_def)
  have l: "\<not> startsWith (getEndpoint Linear operation) ''/orders/''" for operation
    by (cases operation) (simp_all add: getEndpoint_def startsWith_def)
  have s': "\<not> startsWith (getEndpoint Spot operation) ''/orders/''" for operation
    by (cases operation) (simp_all add: getEndpoint_def startsWith_def)
  have c: "getEndpoint Linear PlaceOrder = ''/g-orders/create''"
    "getEndpoint Inverse PlaceOrder = ''/orders/create''"
    "getEndpoint Spot SetLeverage = ''''" "getEndpoint Spot SwitchPosMode = ''''"
    "getEndpoint Spot Account = ''''"
    by (simp_all add: getEndpoint_def)
  have p: "startsWith ''/g-orders/create'' ''/g-orders/''" "startsWith ''/orders/create'' ''/orders/''"
    by (simp_all add: startsWith_def)
  show ?thesis
    using i s l s' p by (simp add: c)
qed

text \<open>
  C7 (idempotence of symbol resolution). Resolving a spot symbol twice gives what resolving
  it once gives, and linear and inverse symbols pass through unchanged.
\<close>

theorem resolveSymbol_idempotent:
  "resolveSymbol Spot (resolveSymbol Spot s) = resolveSymbol Spot s
   \<and> resolveSymbol Linear s = s
   \<and> resolveSymbol Inverse s = s"
  by (simp add: resolveSymbol_def startsWith_def)

section \<open>Rounding to a double\<close>

text \<open>
  Facts about \<open>toDouble\<close>: a value that is a multiple of its unit in the last place is
  returned as it is, the rounding error is at most half a unit in the last place, that is a
  relative error of \<open>2 ^ - 53\<close> in the normal range, and an integer is rounded to an integer.
\<close>

lemma two_powi_pos: "0 < (2::rat) powi e"
  by (simp add: power_int_def)

lemma ilog2_lower:
  assumes "0 < m"
  shows "2 powi ilog2 m \<le> m"
proof (cases "1 \<le> m")
  case True
  then have f: "0 < \<lfloor>m\<rfloor>" by linarith
  have b: "0 \<le> bitlen \<lfloor>m\<rfloor> - 1" using f bitlen_bounds [OF f] bitlen_nonneg [of "\<lfloor>m\<rfloor>"]
    by (smt (verit) bitlen_eq_zero_iff)
  have "2 ^ nat (bitlen \<lfloor>m\<rfloor> - 1) \<le> \<lfloor>m\<rfloor>" using bitlen_bounds [OF f] by simp
  then have "(2::rat) ^ nat (bitlen \<lfloor>m\<rfloor> - 1) \<le> of_int \<lfloor>m\<rfloor>" by simp
  also have "\<dots> \<le> m" by simp
  finally show ?thesis using True b by (simp add: ilog2_def power_int_def)
next
  case False
  then have m1: "m < 1" by simp
  define c where "c = \<lceil>1 / m\<rceil>"
  have "1 < 1 / m" using assms m1 by simp
  then have c2: "2 \<le> c" unfolding c_def by linarith
  then have c0: "0 < c - 1" by simp
  have "c - 1 < 2 ^ nat (bitlen (c - 1))" using bitlen_bounds [OF c0] by simp
  then have "c \<le> 2 ^ nat (bitlen (c - 1))" by simp
  then have "(of_int c :: rat) \<le> 2 ^ nat (bitlen (c - 1))"
    by (metis of_int_le_iff of_int_numeral of_int_power)
  moreover have "1 / m \<le> of_int c" unfolding c_def by simp
  ultimately have "1 / m \<le> 2 ^ nat (bitlen (c - 1))" by linarith
  then have "1 / 2 ^ nat (bitlen (c - 1)) \<le> m"
    using assms by (simp add: field_simps)
  moreover have "1 \<le> bitlen (c - 1)"
    using c0 bitlen_nonneg [of "c - 1"] bitlen_eq_zero_iff [of "c - 1"] by linarith
  ultimately show ?thesis using False
    by (simp add: ilog2_def power_int_def c_def field_simps)
qed

lemma ilog2_upper:
  assumes "0 < m"
  shows "m < 2 powi (ilog2 m + 1)"
proof (cases "1 \<le> m")
  case True
  then have f: "0 < \<lfloor>m\<rfloor>" by linarith
  have b: "0 \<le> bitlen \<lfloor>m\<rfloor>" by (rule bitlen_nonneg)
  have "\<lfloor>m\<rfloor> < 2 ^ nat (bitlen \<lfloor>m\<rfloor>)" using bitlen_bounds [OF f] by simp
  then have "\<lfloor>m\<rfloor> + 1 \<le> 2 ^ nat (bitlen \<lfloor>m\<rfloor>)" by simp
  then have "(of_int (\<lfloor>m\<rfloor> + 1) :: rat) \<le> 2 ^ nat (bitlen \<lfloor>m\<rfloor>)"
    by (metis of_int_le_iff of_int_numeral of_int_power)
  moreover have "m < of_int (\<lfloor>m\<rfloor> + 1)" by linarith
  ultimately have "m < 2 ^ nat (bitlen \<lfloor>m\<rfloor>)" by linarith
  then show ?thesis using True b by (simp add: ilog2_def power_int_def)
next
  case False
  then have m1: "m < 1" by simp
  define c where "c = \<lceil>1 / m\<rceil>"
  have "1 < 1 / m" using assms m1 by simp
  then have c2: "2 \<le> c" unfolding c_def by linarith
  then have c0: "0 < c - 1" by simp
  have b1: "1 \<le> bitlen (c - 1)"
    using c0 bitlen_nonneg [of "c - 1"] bitlen_eq_zero_iff [of "c - 1"] by linarith
  have "2 ^ nat (bitlen (c - 1) - 1) \<le> c - 1" using bitlen_bounds [OF c0] by simp
  then have "(2::rat) ^ nat (bitlen (c - 1) - 1) \<le> of_int (c - 1)"
    by (metis of_int_le_iff of_int_numeral of_int_power)
  moreover have "of_int (c - 1) < 1 / m" unfolding c_def by linarith
  ultimately have "2 ^ nat (bitlen (c - 1) - 1) < 1 / m" by linarith
  then have "m < 1 / 2 ^ nat (bitlen (c - 1) - 1)"
    using assms by (simp add: field_simps)
  moreover have "- bitlen (c - 1) + 1 \<le> 0" using b1 by simp
  moreover have "nat (bitlen (c - 1) - 1) = nat (- (- bitlen (c - 1) + 1))" by simp
  ultimately show ?thesis using False b1
    by (simp add: ilog2_def power_int_def c_def field_simps)
qed

lemma ilog2_unique:
  assumes "2 powi e \<le> m" and "m < 2 powi (e + 1)"
  shows "ilog2 m = e"
proof -
  have m: "0 < m" using assms(1) two_powi_pos [of e] by linarith
  have "2 powi e < (2::rat) powi (ilog2 m + 1)" using assms(1) ilog2_upper [OF m] by linarith
  then have "e < ilog2 m + 1"
    using power_int_increasing [of "ilog2 m + 1" e "2::rat"] by (cases "e < ilog2 m + 1") auto
  moreover have "2 powi ilog2 m < (2::rat) powi (e + 1)" using assms(2) ilog2_lower [OF m] by linarith
  then have "ilog2 m < e + 1"
    using power_int_increasing [of "e + 1" "ilog2 m" "2::rat"] by (cases "ilog2 m < e + 1") auto
  ultimately show ?thesis by simp
qed

lemma roundHalfEven_of_int [simp]: "roundHalfEven (of_int z) = z"
  by (simp add: roundHalfEven_def)

lemma roundHalfEven_near: "\<bar>of_int (roundHalfEven q) - q\<bar> \<le> 1 / 2"
proof -
  have "of_int \<lfloor>q\<rfloor> \<le> q" "q < of_int \<lfloor>q\<rfloor> + 1" by linarith+
  then show ?thesis
    unfolding roundHalfEven_def Let_def by auto
qed

lemma roundHalfEven_unique:
  assumes "\<bar>of_int k - q\<bar> < 1 / 2"
  shows "roundHalfEven q = k"
proof -
  have "\<bar>of_int (roundHalfEven q) - (of_int k :: rat)\<bar> < 1"
    using roundHalfEven_near [of q] assms by linarith
  then have "\<bar>(of_int (roundHalfEven q - k) :: rat)\<bar> < 1" by simp
  then have "\<bar>roundHalfEven q - k\<bar> < 1"
    by (metis of_int_abs of_int_less_1_iff)
  then show ?thesis by simp
qed

lemma roundHalfEven_mono:
  assumes "q \<le> q'"
  shows "roundHalfEven q \<le> roundHalfEven q'"
proof (rule ccontr)
  assume "\<not> roundHalfEven q \<le> roundHalfEven q'"
  then have lt: "roundHalfEven q' + 1 \<le> roundHalfEven q" by simp
  then have ltr: "(of_int (roundHalfEven q') :: rat) + 1 \<le> of_int (roundHalfEven q)"
    by (metis of_int_1 of_int_add of_int_le_iff)
  have a: "of_int (roundHalfEven q) - q \<le> 1 / 2" "q' - of_int (roundHalfEven q') \<le> 1 / 2"
    using roundHalfEven_near [of q] roundHalfEven_near [of q'] by linarith+
  with ltr assms have eq: "q = q'" by linarith
  with lt show False by simp
qed

lemma two_powi_add: "(2::rat) powi (a + b) = 2 powi a * 2 powi b"
  by (simp add: power_int_add)

lemma two_powi_diff: "(2::rat) powi (a - b) = 2 powi a / 2 powi b"
  by (simp add: power_int_diff)

lemma two_powi_mono: "a \<le> b \<Longrightarrow> (2::rat) powi a \<le> 2 powi b"
  by (simp add: power_int_increasing)

lemma two_powi_nat: "0 \<le> e \<Longrightarrow> (2::rat) powi e = of_int (2 ^ nat e)"
  by (simp add: power_int_def)

lemma toDouble_unfold:
  "m \<noteq> 0 \<Longrightarrow> toDouble m =
     (if maxDouble < of_int (roundHalfEven (m / 2 powi ulpExp m)) * 2 powi ulpExp m then None
      else Some (of_int (roundHalfEven (m / 2 powi ulpExp m)) * 2 powi ulpExp m))"
  by (simp add: toDouble_def Let_def)

lemma toDouble_exact:
  assumes k: "0 < k" "k < 2 ^ 53" and e: "- 1074 \<le> e"
    and lt: "of_int k * 2 powi e \<le> maxDouble"
  shows "toDouble (of_int k * 2 powi e) = Some (of_int k * 2 powi e)"
proof -
  define m :: rat where "m = of_int k * 2 powi e"
  have m0: "0 < m" unfolding m_def using k(1) two_powi_pos [of e] by simp
  have "(of_int k :: rat) < 2 ^ 53" using k(2)
    by (metis of_int_less_iff of_int_numeral of_int_power)
  then have "m < 2 ^ 53 * 2 powi e" unfolding m_def using two_powi_pos [of e] by simp
  also have "\<dots> = 2 powi (e + 53)" by (simp add: two_powi_add)
  finally have "2 powi ilog2 m < (2::rat) powi (e + 53)" using ilog2_lower [OF m0] by linarith
  then have "ilog2 m < e + 53"
    using two_powi_mono [of "e + 53" "ilog2 m"] by (cases "ilog2 m < e + 53") auto
  then have ex: "ulpExp m \<le> e" using e by (simp add: ulpExp_def)
  have "m / 2 powi ulpExp m = of_int k * 2 powi (e - ulpExp m)"
    unfolding m_def by (simp add: two_powi_diff)
  also have "\<dots> = of_int (k * 2 ^ nat (e - ulpExp m))"
    using ex by (simp add: two_powi_nat)
  finally have "of_int (roundHalfEven (m / 2 powi ulpExp m)) = m / 2 powi ulpExp m"
    by (simp only: roundHalfEven_of_int)
  then have "of_int (roundHalfEven (m / 2 powi ulpExp m)) * 2 powi ulpExp m = m"
    using two_powi_pos [of "ulpExp m"] by simp
  moreover have "m \<noteq> 0" using m0 by simp
  ultimately show ?thesis
    using lt toDouble_unfold [of m] unfolding m_def [symmetric] by simp
qed

lemma toDouble_of_int:
  assumes "0 \<le> z" "z < 2 ^ 53"
  shows "toDouble (of_int z) = Some (of_int z)"
proof (cases "z = 0")
  case True
  then show ?thesis by (simp add: toDouble_def)
next
  case False
  then have z: "0 < z" using assms by simp
  have "(of_int z :: rat) < 2 ^ 53" using assms(2)
    by (metis of_int_less_iff of_int_numeral of_int_power)
  then have "(of_int z :: rat) * 2 powi 0 \<le> maxDouble" by (simp add: maxDouble_def)
  from toDouble_exact [OF z assms(2) _ this] show ?thesis by simp
qed

lemma toDouble_error:
  assumes m: "0 < m" and r: "toDouble m = Some r"
  shows "\<bar>r - m\<bar> \<le> 2 powi (ulpExp m - 1)"
proof -
  define u where "u = (2::rat) powi ulpExp m"
  have u: "0 < u" unfolding u_def by (rule two_powi_pos)
  have "r = of_int (roundHalfEven (m / u)) * u"
    using m r toDouble_unfold [of m] unfolding u_def by (simp split: if_splits)
  then have "r - m = (of_int (roundHalfEven (m / u)) - m / u) * u"
    using u by (simp add: field_simps)
  then have "\<bar>r - m\<bar> = \<bar>of_int (roundHalfEven (m / u)) - m / u\<bar> * u"
    using u by (simp add: abs_mult)
  also have "\<dots> \<le> 1 / 2 * u"
    using roundHalfEven_near [of "m / u"] u by (simp add: mult_right_mono)
  also have "\<dots> = 2 powi (ulpExp m - 1)"
    unfolding u_def by (simp add: two_powi_diff)
  finally show ?thesis .
qed

lemma toDouble_rel_error:
  assumes m: "0 < m" and r: "toDouble m = Some r" and n: "2 powi (- 1022) \<le> m"
  shows "\<bar>r - m\<bar> \<le> m / 2 ^ 53"
proof -
  have "2 powi (- 1022) \<le> (2::rat) powi (ilog2 m + 1) \<and> 2 powi (- 1022) \<noteq> (2::rat) powi (ilog2 m + 1)"
    using n ilog2_upper [OF m] by linarith
  then have "- 1022 < ilog2 m + 1"
    using two_powi_mono [of "ilog2 m + 1" "- 1022"] by (cases "- 1022 < ilog2 m + 1") auto
  then have "ulpExp m - 1 = ilog2 m - 53" by (simp add: ulpExp_def)
  then have "\<bar>r - m\<bar> \<le> 2 powi (ilog2 m - 53)" using toDouble_error [OF m r] by (simp only:)
  also have "\<dots> = 2 powi ilog2 m / 2 ^ 53" by (simp add: two_powi_diff)
  also have "\<dots> \<le> m / 2 ^ 53" using ilog2_lower [OF m] by (simp add: divide_right_mono)
  finally show ?thesis .
qed

lemma toDouble_eqI:
  assumes lo: "2 powi E \<le> m" and hi: "m < 2 powi (E + 1)" and n: "- 1022 \<le> E"
    and k: "\<bar>of_int k - m / 2 powi (E - 52)\<bar> < 1 / 2"
    and lt: "of_int k * 2 powi (E - 52) \<le> maxDouble"
  shows "toDouble m = Some (of_int k * 2 powi (E - 52))"
proof -
  have m: "0 < m" using lo two_powi_pos [of E] by linarith
  have "ilog2 m = E" using lo hi by (rule ilog2_unique)
  then have u: "ulpExp m = E - 52" using n by (simp add: ulpExp_def)
  have "roundHalfEven (m / 2 powi (E - 52)) = k" using k by (rule roundHalfEven_unique)
  then show ?thesis using m lt toDouble_unfold [of m] u by simp
qed

lemma maxDouble_alt: "maxDouble = of_int (2 ^ 53 - 1) * 2 powi 971"
  by (simp add: maxDouble_def)

lemma toDouble_finite:
  assumes m: "0 < m" and le: "m \<le> maxDouble"
  shows "\<exists>r. toDouble m = Some r \<and> r \<le> maxDouble"
proof -
  define u where "u = ulpExp m"
  define q where "q = roundHalfEven (m / 2 powi u)"
  have up: "0 < (2::rat) powi u" by (rule two_powi_pos)
  have "m < 2 powi 1024" using le by (simp add: maxDouble_def)
  then have "2 powi ilog2 m < (2::rat) powi 1024" using ilog2_lower [OF m] by linarith
  then have "ilog2 m < 1024"
    using two_powi_mono [of 1024 "ilog2 m"] by (cases "ilog2 m < 1024") auto
  then have u971: "u \<le> 971" by (simp add: u_def ulpExp_def)
  have "m < 2 powi (ilog2 m + 1)" using ilog2_upper [OF m] .
  also have "\<dots> \<le> 2 powi (u + 53)"
    by (rule two_powi_mono) (simp add: u_def ulpExp_def)
  also have "\<dots> = 2 ^ 53 * 2 powi u" by (simp add: two_powi_add)
  finally have "m / 2 powi u < 2 ^ 53" using up by (simp add: field_simps)
  then have "m / 2 powi u \<le> of_int (2 ^ 53)" by simp
  from roundHalfEven_mono [OF this] have q53: "q \<le> 2 ^ 53"
    unfolding q_def by (simp only: roundHalfEven_of_int)
  have rle: "of_int q * 2 powi u \<le> maxDouble"
  proof (cases "u = 971")
    case True
    have "m \<le> of_int (2 ^ 53 - 1) * 2 powi u"
      using le True by (simp only: maxDouble_alt)
    then have "m / 2 powi u \<le> of_int (2 ^ 53 - 1)"
      using up by (simp only: pos_divide_le_eq)
    from roundHalfEven_mono [OF this] have "q \<le> 2 ^ 53 - 1"
      unfolding q_def by (simp only: roundHalfEven_of_int)
    then have "(of_int q :: rat) \<le> of_int (2 ^ 53 - 1)"
      by (simp only: of_int_le_iff)
    then have "(of_int q :: rat) * 2 powi u \<le> of_int (2 ^ 53 - 1) * 2 powi u"
      using up by (intro mult_right_mono) auto
    then show ?thesis using True by (simp only: maxDouble_alt)
  next
    case False
    then have "u \<le> 970" using u971 by simp
    then have "(2::rat) powi u \<le> 2 powi 970" by (rule two_powi_mono)
    moreover have "(of_int q :: rat) \<le> 2 ^ 53" using q53
      by (metis of_int_le_iff of_int_numeral of_int_power)
    moreover have "0 \<le> (of_int q :: rat)"
    proof -
      have "(0::rat) \<le> m / 2 powi u" using m up by simp
      then have "of_int 0 \<le> m / 2 powi u" by simp
      from roundHalfEven_mono [OF this] have "0 \<le> q"
        unfolding q_def by (simp only: roundHalfEven_of_int)
      then show ?thesis by simp
    qed
    ultimately have "of_int q * 2 powi u \<le> (2::rat) ^ 53 * 2 powi 970"
      using up by (intro mult_mono) auto
    also have "\<dots> \<le> maxDouble" by (simp add: maxDouble_def)
    finally show ?thesis .
  qed
  then have "toDouble m = Some (of_int q * 2 powi u)"
    using m toDouble_unfold [of m] by (simp add: q_def u_def)
  with rle show ?thesis by simp
qed

lemma toDouble_integer:
  assumes z: "1 \<le> z" and le: "of_int z \<le> maxDouble"
  shows "\<exists>r. toDouble (of_int z) = Some (of_int r) \<and> 1 \<le> r"
proof -
  define m :: rat where "m = of_int z"
  have m1: "1 \<le> m" using z by (simp add: m_def)
  then have m: "0 < m" by simp
  define u where "u = ulpExp m"
  define q where "q = roundHalfEven (m / 2 powi u)"
  have up: "0 < (2::rat) powi u" by (rule two_powi_pos)
  obtain r where r: "toDouble m = Some r" using toDouble_finite [OF m] le by (auto simp: m_def)
  then have req: "r = of_int q * 2 powi u"
    using m toDouble_unfold [of m] by (simp add: q_def u_def split: if_splits)
  have "2 powi 0 \<le> m" using m1 by simp
  then have "(2::rat) powi 0 < 2 powi (ilog2 m + 1)" using ilog2_upper [OF m] by linarith
  then have l0: "0 \<le> ilog2 m"
    using two_powi_mono [of "ilog2 m + 1" 0] by (cases "0 \<le> ilog2 m") auto
  then have ueq: "u = ilog2 m - 52" by (simp add: u_def ulpExp_def)
  show ?thesis
  proof (cases "0 \<le> u")
    case True
    have "2 powi (u + 52) \<le> m" using ilog2_lower [OF m] ueq by simp
    then have "2 ^ 52 * 2 powi u \<le> m" by (simp add: two_powi_add)
    then have "of_int (2 ^ 52) \<le> m / 2 powi u" using up by (simp add: field_simps)
    from roundHalfEven_mono [OF this] have "2 ^ 52 \<le> q"
      unfolding q_def by (simp only: roundHalfEven_of_int)
    then have q1: "1 \<le> q" by simp
    have "r = of_int (q * 2 ^ nat u)" using req True by (simp add: two_powi_nat)
    moreover have "1 \<le> q * 2 ^ nat u"
    proof -
      have "(1::int) \<le> 2 ^ nat u" by simp
      with q1 have "1 * 1 \<le> q * 2 ^ nat u" by (intro mult_mono) auto
      then show ?thesis by simp
    qed
    ultimately show ?thesis using r unfolding m_def by blast
  next
    case False
    then have "m / 2 powi u = of_int z * 2 powi (- u)"
      by (simp add: m_def power_int_minus field_simps)
    also have "\<dots> = of_int (z * 2 ^ nat (- u))" using False by (simp add: two_powi_nat)
    finally have "of_int q = m / 2 powi u"
      unfolding q_def by (simp only: roundHalfEven_of_int)
    then have "r = m" using req up by simp
    then show ?thesis using r z unfolding m_def by blast
  qed
qed

section \<open>Properties of the cache and of the response conversion\<close>

text \<open>
  C3 (conversion is a no-op for unknown symbols). When the scale table has no entry for the
  symbol, \<open>convertResponse\<close> returns its argument unchanged, whatever it is: no field of any
  nested object is converted and nothing is thrown.
\<close>

theorem convertResponse_unknown_symbol:
  assumes "get c symb = None"
  shows "convertResponse c symb v = v"
proof (induction v)
  case (JArray items)
  then show ?case by (simp add: map_idI)
next
  case (JObject obj)
  then show ?case using assms by (simp add: get_def)
qed simp_all

theorem convertResponse_unknown_symbol_witness:
  "get (constructor ''https://api.phemex.com'') ''UNKNOWN'' = None
   \<and> convertResponse (constructor ''https://api.phemex.com'') ''UNKNOWN''
         (JObject [(''priceEp'', JNumber (Finite False 123))])
       = JObject [(''priceEp'', JNumber (Finite False 123))]"
proof -
  have h: "get (constructor ''https://api.phemex.com'') ''UNKNOWN'' = None"
    by (simp add: get_def constructor_def)
  from h convertResponse_unknown_symbol [OF h] show ?thesis by (intro conjI)
qed

text \<open>
  C4 (scaling failure is explicit). For a symbol without product information,
  \<open>scalePrice\<close>, \<open>scaleRatio\<close> and \<open>scaleValue\<close> throw the error "No product info for" the
  symbol, and for a currency without scale \<open>scaleCurrencyAmount\<close> throws "No currency info
  for" the currency, whatever the decimal string: none of them returns a number.
\<close>

theorem scale_without_info_fails:
  assumes "get c symb = None" and "currencyScales c ccy = None"
  shows "scalePrice c symb decimal = Inl (Error (''No product info for '' @ symb))
    \<and> scaleRatio c symb decimal = Inl (Error (''No product info for '' @ symb))
    \<and> scaleValue c symb decimal = Inl (Error (''No product info for '' @ symb))
    \<and> scaleCurrencyAmount c ccy decimal = Inl (Error (''No currency info for '' @ ccy))"
  using assms
  by (simp add: get_def scalePrice_def scaleRatio_def scaleValue_def scaleCurrencyAmount_def)

theorem scale_without_info_fails_witness:
  "get (constructor ''https://api.phemex.com'') ''UNKNOWN'' = None
   \<and> currencyScales (constructor ''https://api.phemex.com'') ''UNKNOWN'' = None
   \<and> scalePrice (constructor ''https://api.phemex.com'') ''UNKNOWN'' ''1''
       = Inl (Error ''No product info for UNKNOWN'')
   \<and> scaleRatio (constructor ''https://api.phemex.com'') ''UNKNOWN'' ''1''
       = Inl (Error ''No product info for UNKNOWN'')
   \<and> scaleValue (constructor ''https://api.phemex.com'') ''UNKNOWN'' ''1''
       = Inl (Error ''No product info for UNKNOWN'')
   \<and> scaleCurrencyAmount (constructor ''https://api.phemex.com'') ''UNKNOWN'' ''1''
       = Inl (Error ''No currency info for UNKNOWN'')"
proof -
  have h: "get (constructor ''https://api.phemex.com'') ''UNKNOWN'' = None"
    "currencyScales (constructor ''https://api.phemex.com'') ''UNKNOWN'' = None"
    by (simp_all add: get_def constructor_def)
  from scale_without_info_fails [OF h, of "''1''"] h show ?thesis by simp
qed

section \<open>Decimal exponents and digits\<close>

lemma floorlog_ge1: "0 < x \<Longrightarrow> 1 \<le> floorlog 10 x"
  by (simp add: floorlog_def)

lemma floorlog10_lower: "0 < x \<Longrightarrow> (10::nat) ^ (floorlog 10 x - 1) \<le> x"
  using floorlog_bounds [of x 10] by simp

lemma floorlog10_upper: "0 < x \<Longrightarrow> x < (10::nat) ^ floorlog 10 x"
  using floorlog_bounds [of x 10] by simp

lemma ten_powi_pos: "0 < (10::rat) powi e"
  by (simp add: power_int_def)

lemma decimalExponent_lower:
  assumes "0 < m"
  shows "10 powi (decimalExponent m - 1) \<le> m"
proof (cases "1 \<le> m")
  case True
  then have f: "0 < nat \<lfloor>m\<rfloor>" by linarith
  define L where "L = floorlog 10 (nat \<lfloor>m\<rfloor>)"
  have l1: "1 \<le> L" unfolding L_def using f by (rule floorlog_ge1)
  have "(10::nat) ^ (L - 1) \<le> nat \<lfloor>m\<rfloor>" unfolding L_def using f by (rule floorlog10_lower)
  then have "(of_nat (10 ^ (L - 1)) :: rat) \<le> of_nat (nat \<lfloor>m\<rfloor>)"
    by (simp only: of_nat_le_iff)
  also have "\<dots> = of_int \<lfloor>m\<rfloor>" using True by simp
  also have "\<dots> \<le> m" by simp
  finally have "(10::rat) ^ (L - 1) \<le> m" by simp
  moreover have "int L - 1 = int (L - 1)" using l1 by simp
  ultimately have "10 powi (int L - 1) \<le> m" by (simp only: power_int_of_nat)
  then show ?thesis using True by (simp add: decimalExponent_def L_def)
next
  case False
  then have m1: "m < 1" by simp
  define c where "c = \<lceil>1 / m\<rceil>"
  have "1 < 1 / m" using assms m1 by simp
  then have c2: "2 \<le> c" unfolding c_def by linarith
  then have g: "0 < nat (c - 1)" by simp
  define L where "L = floorlog 10 (nat (c - 1))"
  have "nat (c - 1) < (10::nat) ^ L" unfolding L_def using g by (rule floorlog10_upper)
  then have "int (nat (c - 1)) < int (10 ^ L)" by (simp only: of_nat_less_iff)
  then have "c - 1 < 10 ^ L" using c2 by simp
  then have "c \<le> 10 ^ L" by simp
  then have "(of_int c :: rat) \<le> of_int (10 ^ L)" by (simp only: of_int_le_iff)
  moreover have "1 / m \<le> of_int c" unfolding c_def by simp
  moreover have "(of_int (10 ^ L) :: rat) = 10 ^ L" by simp
  ultimately have "1 / m \<le> 10 ^ L" by linarith
  then have "1 / 10 ^ L \<le> m" using assms by (simp add: field_simps)
  moreover have "(10::rat) powi (- int L) = 1 / 10 ^ L"
    by (simp only: power_int_minus power_int_of_nat inverse_eq_divide)
  ultimately have "10 powi (- int L) \<le> m" by simp
  then show ?thesis using False by (simp add: decimalExponent_def c_def L_def)
qed

lemma decimalExponent_upper:
  assumes "0 < m"
  shows "m < 10 powi decimalExponent m"
proof (cases "1 \<le> m")
  case True
  then have f: "0 < nat \<lfloor>m\<rfloor>" by linarith
  define L where "L = floorlog 10 (nat \<lfloor>m\<rfloor>)"
  have "nat \<lfloor>m\<rfloor> < (10::nat) ^ L" unfolding L_def using f by (rule floorlog10_upper)
  then have "int (nat \<lfloor>m\<rfloor>) < int (10 ^ L)" by (simp only: of_nat_less_iff)
  then have "\<lfloor>m\<rfloor> < 10 ^ L" using True by simp
  then have "\<lfloor>m\<rfloor> + 1 \<le> 10 ^ L" by simp
  then have "(of_int (\<lfloor>m\<rfloor> + 1) :: rat) \<le> of_int (10 ^ L)"
    by (simp only: of_int_le_iff)
  moreover have "m < of_int (\<lfloor>m\<rfloor> + 1)" by linarith
  moreover have "(of_int (10 ^ L) :: rat) = 10 ^ L" by simp
  ultimately have "m < 10 ^ L" by linarith
  then have "m < 10 powi int L" by (simp only: power_int_of_nat)
  then show ?thesis using True by (simp add: decimalExponent_def L_def)
next
  case False
  then have m1: "m < 1" by simp
  define c where "c = \<lceil>1 / m\<rceil>"
  have "1 < 1 / m" using assms m1 by simp
  then have c2: "2 \<le> c" unfolding c_def by linarith
  then have g: "0 < nat (c - 1)" by simp
  define L where "L = floorlog 10 (nat (c - 1))"
  have l1: "1 \<le> L" unfolding L_def using g by (rule floorlog_ge1)
  have "(10::nat) ^ (L - 1) \<le> nat (c - 1)" unfolding L_def using g by (rule floorlog10_lower)
  then have "int (10 ^ (L - 1)) \<le> int (nat (c - 1))" by (simp only: of_nat_le_iff)
  then have "10 ^ (L - 1) \<le> c - 1" using c2 by simp
  then have "(of_int (10 ^ (L - 1)) :: rat) \<le> of_int (c - 1)" by (simp only: of_int_le_iff)
  moreover have "of_int (c - 1) < 1 / m" unfolding c_def by linarith
  moreover have "(of_int (10 ^ (L - 1)) :: rat) = 10 ^ (L - 1)" by simp
  ultimately have "10 ^ (L - 1) < 1 / m" by linarith
  then have "m < 1 / 10 ^ (L - 1)" using assms by (simp add: field_simps)
  moreover have "(10::rat) powi (1 - int L) = 1 / 10 ^ (L - 1)"
  proof -
    have "1 - int L = - int (L - 1)" using l1 by simp
    then have "(10::rat) powi (1 - int L) = 10 powi (- int (L - 1))" by (simp only:)
    also have "\<dots> = inverse (10 powi int (L - 1))" by (simp only: power_int_minus)
    also have "\<dots> = 1 / 10 ^ (L - 1)" by (simp only: power_int_of_nat inverse_eq_divide)
    finally show ?thesis .
  qed
  ultimately have "m < 10 powi (1 - int L)" by simp
  then show ?thesis using False by (simp add: decimalExponent_def c_def L_def)
qed

lemma ten_powi_mono: "a \<le> b \<Longrightarrow> (10::rat) powi a \<le> 10 powi b"
  by (simp add: power_int_increasing)

lemma decimalExponent_unique:
  assumes "10 powi (n - 1) \<le> m" and "m < 10 powi n"
  shows "decimalExponent m = n"
proof -
  have m: "0 < m" using assms(1) ten_powi_pos [of "n - 1"] by linarith
  have "10 powi (n - 1) < (10::rat) powi decimalExponent m"
    using assms(1) decimalExponent_upper [OF m] by linarith
  then have "n - 1 < decimalExponent m"
    using ten_powi_mono [of "decimalExponent m" "n - 1"] by (cases "n - 1 < decimalExponent m") auto
  moreover have "10 powi (decimalExponent m - 1) < (10::rat) powi n"
    using assms(2) decimalExponent_lower [OF m] by linarith
  then have "decimalExponent m - 1 < n"
    using ten_powi_mono [of n "decimalExponent m - 1"] by (cases "decimalExponent m - 1 < n") auto
  ultimately show ?thesis by simp
qed

section \<open>The scale factors stored by init\<close>

lemma ten_powi_nat: "0 \<le> e \<Longrightarrow> (10::rat) powi e = of_int (10 ^ nat e)"
  by (simp add: power_int_def)

lemma pow10_le_maxDouble: "(10::rat) ^ 308 \<le> maxDouble"
  by (simp add: maxDouble_def)

lemma ulpExp_ge: "- 1074 \<le> ulpExp m"
  by (simp add: ulpExp_def)

lemma toDouble_idem:
  assumes r: "toDouble m = Some r" and m: "0 \<le> m"
  shows "toDouble r = Some r"
proof (cases "m = 0")
  case True
  then show ?thesis using r by (simp add: toDouble_def)
next
  case False
  then have m0: "0 < m" using m by simp
  define u where "u = ulpExp m"
  define q where "q = roundHalfEven (m / 2 powi u)"
  have up: "0 < (2::rat) powi u" by (rule two_powi_pos)
  have req: "r = of_int q * 2 powi u" and rle: "of_int q * 2 powi u \<le> maxDouble"
    using m0 r toDouble_unfold [of m] by (simp_all add: q_def u_def split: if_splits)
  have "m < 2 powi (ilog2 m + 1)" using ilog2_upper [OF m0] .
  also have "\<dots> \<le> 2 powi (u + 53)"
    by (rule two_powi_mono) (simp add: u_def ulpExp_def)
  also have "\<dots> = 2 ^ 53 * 2 powi u" by (simp add: two_powi_add)
  finally have "m / 2 powi u < 2 ^ 53" using up by (simp add: field_simps)
  then have "m / 2 powi u \<le> of_int (2 ^ 53)" by simp
  from roundHalfEven_mono [OF this] have q53: "q \<le> 2 ^ 53"
    unfolding q_def by (simp only: roundHalfEven_of_int)
  have "(0::rat) \<le> m / 2 powi u" using m0 up by simp
  then have "of_int 0 \<le> m / 2 powi u" by simp
  from roundHalfEven_mono [OF this] have q0: "0 \<le> q"
    unfolding q_def by (simp only: roundHalfEven_of_int)
  have u74: "- 1074 \<le> u" unfolding u_def by (rule ulpExp_ge)
  consider "q = 0" | "q = 2 ^ 53" | "0 < q" "q < 2 ^ 53" using q0 q53 by linarith
  then show ?thesis
  proof cases
    case 1
    then show ?thesis by (simp add: req toDouble_def)
  next
    case 2
    have e: "of_int q * 2 powi u = of_int (2 ^ 52) * (2::rat) powi (u + 1)"
      by (simp add: 2 two_powi_add)
    have "toDouble (of_int (2 ^ 52) * 2 powi (u + 1)) = Some (of_int (2 ^ 52) * 2 powi (u + 1))"
      using u74 rle by (intro toDouble_exact) (simp_all only: e [symmetric], simp_all)
    then show ?thesis by (simp only: req e)
  next
    case 3
    show ?thesis unfolding req using 3 u74 rle by (intro toDouble_exact)
  qed
qed

lemma double_integer:
  assumes "isDouble r" and "2 ^ 52 \<le> r"
  shows "of_int \<lfloor>r\<rfloor> = r"
proof -
  have r0: "0 < r" using assms(2) by (simp add: order.strict_trans2 [of 0 "2 ^ 52"])
  define u where "u = ulpExp r"
  have "r = of_int (roundHalfEven (r / 2 powi u)) * 2 powi u"
    using assms(1) r0 toDouble_unfold [of r] by (simp add: isDouble_def u_def split: if_splits)
  moreover have "(2::rat) powi 52 < 2 powi (ilog2 r + 1)" using assms(2) ilog2_upper [OF r0] by simp
  then have "52 < ilog2 r + 1"
    using two_powi_mono [of "ilog2 r + 1" 52] by (cases "52 < ilog2 r + 1") auto
  then have "0 \<le> u" by (simp add: u_def ulpExp_def)
  then have "(2::rat) powi u = of_int (2 ^ nat u)" by (rule two_powi_nat)
  ultimately have "r = of_int (roundHalfEven (r / 2 powi u) * 2 ^ nat u)" by simp
  then obtain z :: int where "r = of_int z" ..
  then show ?thesis by simp
qed

lemma pow10_isDouble:
  assumes "0 \<le> e" and "e \<le> 22"
  shows "isDouble (10 powi e)"
proof -
  define n where "n = nat e"
  have n: "n \<le> 22" using assms by (simp add: n_def)
  have "(5::int) ^ n \<le> 5 ^ 22" using n by (intro power_increasing) simp_all
  then have k: "(5::int) ^ n < 2 ^ 53" by simp
  have "(10::rat) ^ n = (5 * 2) ^ n" by simp
  also have "\<dots> = 5 ^ n * 2 ^ n" by (rule power_mult_distrib)
  finally have e: "(10::rat) powi e = of_int (5 ^ n) * 2 powi int n"
    using assms(1) by (simp add: n_def power_int_def)
  have "(10::rat) ^ n \<le> 10 ^ 308" using n by (intro power_increasing) simp_all
  then have le: "of_int (5 ^ n) * 2 powi int n \<le> maxDouble"
    using pow10_le_maxDouble e assms(1) by (simp add: n_def power_int_def)
  have "toDouble (of_int (5 ^ n) * 2 powi int n) = Some (of_int (5 ^ n) * 2 powi int n)"
    using k le by (intro toDouble_exact) simp_all
  then show ?thesis by (simp only: isDouble_def e)
qed

lemma accurate_exact:
  assumes "accurate pow" and "0 \<le> e" and "e \<le> 22"
  shows "pow e = Finite False (10 powi e)"
proof -
  have "accurateAt pow e" using assms by (simp add: accurate_def)
  then show ?thesis using pow10_isDouble [OF assms(2,3)]
    by (auto simp: accurateAt_def split: number.splits)
qed

lemma accurate_positive_integer:
  assumes "accurate pow" and "reported x"
  shows "isPositiveInteger (Math_pow10 pow x)"
proof -
  from assms(2) obtain e where x: "x = Some e" and e: "0 \<le> e" "e \<le> 308"
    by (auto simp: reported_def split: option.splits)
  have a: "accurateAt pow e" using assms(1) e by (simp add: accurate_def)
  show ?thesis
  proof (cases "e \<le> 22")
    case True
    have "pow e = Finite False (of_int (10 ^ nat e))"
      using accurate_exact [OF assms(1) e(1) True] e(1) by (simp only: ten_powi_nat)
    moreover have "(1::int) \<le> 10 ^ nat e" by simp
    then have "(1::rat) \<le> of_int (10 ^ nat e)" by (simp only: of_int_1_le_iff)
    ultimately show ?thesis by (simp add: x Math_pow10_def isPositiveInteger_def)
  next
    case False
    define v :: rat where "v = 10 powi e"
    from a obtain r where p: "pow e = Finite False r" and d: "isDouble r"
      and c: "\<bar>r - v\<bar> * 2 ^ 50 \<le> v"
      by (auto simp: accurateAt_def v_def split: number.splits)
    have "(10::rat) powi 23 \<le> v" unfolding v_def using False by (intro ten_powi_mono) simp
    then have v23: "10 ^ 23 \<le> v" by simp
    define a where "a = \<bar>r - v\<bar>"
    have "a * 2 ^ 50 \<le> v" using c by (simp add: a_def)
    then have "a \<le> v / 2" using v23 by simp
    then have "v / 2 \<le> r" unfolding a_def by linarith
    then have r52: "2 ^ 52 \<le> r" using v23 by simp
    have "of_int \<lfloor>r\<rfloor> = r" using d r52 by (rule double_integer)
    moreover have "1 \<le> r" using r52 by simp
    ultimately show ?thesis by (simp add: x p Math_pow10_def isPositiveInteger_def)
  qed
qed

lemma roundedPow_accurate: "accurate roundedPow"
  unfolding accurate_def
proof
  fix e :: int
  assume "e \<in> {0..308}"
  then have e: "0 \<le> e" "e \<le> 308" by simp_all
  define v :: rat where "v = 10 powi e"
  have v0: "0 < v" unfolding v_def by (rule ten_powi_pos)
  have "(10::rat) ^ nat e \<le> 10 ^ 308" using e by (intro power_increasing) simp_all
  then have "v \<le> maxDouble" using pow10_le_maxDouble e(1) by (simp add: v_def power_int_def)
  then obtain r where r: "toDouble v = Some r" using toDouble_finite [OF v0] by blast
  have d: "isDouble r" unfolding isDouble_def using r v0 by (intro toDouble_idem [of v]) simp_all
  have "(10::rat) powi 0 \<le> v" unfolding v_def using e(1) by (rule ten_powi_mono)
  moreover have "(2::rat) powi (- 1022) \<le> 2 powi 0" by (rule two_powi_mono) simp
  ultimately have n: "2 powi (- 1022) \<le> v" by simp
  define a where "a = \<bar>r - v\<bar>"
  have "a \<le> v / 2 ^ 53" using toDouble_rel_error [OF v0 r n] by (simp add: a_def)
  then have "a * 2 ^ 53 \<le> v" by (simp add: field_simps)
  moreover have "0 \<le> a" by (simp add: a_def)
  ultimately have c: "a * 2 ^ 50 \<le> v" by simp
  show "accurateAt roundedPow e"
    using r d c by (simp add: accurateAt_def roundedPow_def mkNumber_def isDouble_def
        flip: v_def a_def)
qed

lemma toDouble_overflow:
  assumes "2 powi 1024 \<le> m"
  shows "toDouble m = None"
proof -
  have m: "0 < m" using assms two_powi_pos [of 1024] by linarith
  define u where "u = ulpExp m"
  have up: "0 < (2::rat) powi u" by (rule two_powi_pos)
  have "(2::rat) powi 1024 < 2 powi (ilog2 m + 1)" using assms ilog2_upper [OF m] by linarith
  then have "1024 < ilog2 m + 1"
    using two_powi_mono [of "ilog2 m + 1" 1024] by (cases "1024 < ilog2 m + 1") auto
  then have u: "u = ilog2 m - 52" "972 \<le> u" by (simp_all add: u_def ulpExp_def)
  have "2 powi (u + 52) \<le> m" using ilog2_lower [OF m] u by simp
  then have "2 ^ 52 * 2 powi u \<le> m" by (simp add: two_powi_add)
  then have "of_int (2 ^ 52) \<le> m / 2 powi u" using up by (simp add: field_simps)
  from roundHalfEven_mono [OF this] have "2 ^ 52 \<le> roundHalfEven (m / 2 powi u)"
    by (simp only: roundHalfEven_of_int)
  then have "(of_int (2 ^ 52) :: rat) \<le> of_int (roundHalfEven (m / 2 powi u))"
    by (simp only: of_int_le_iff)
  then have "(of_int (2 ^ 52) :: rat) * 2 powi u \<le> of_int (roundHalfEven (m / 2 powi u)) * 2 powi u"
    using up by (intro mult_right_mono) auto
  moreover have "(2::rat) powi 972 \<le> 2 powi u" using u(2) by (rule two_powi_mono)
  then have "of_int (2 ^ 52) * (2::rat) powi 972 \<le> of_int (2 ^ 52) * 2 powi u"
    by (intro mult_left_mono) auto
  moreover have "maxDouble < of_int (2 ^ 52) * 2 powi 972"
    by (simp add: maxDouble_def)
  ultimately have "maxDouble < of_int (roundHalfEven (m / 2 powi u)) * 2 powi u" by linarith
  then show ?thesis using m toDouble_unfold [of m] by (simp add: u_def)
qed

lemma isPositiveInteger_one: "isPositiveInteger (Finite False 1)"
  by (simp add: isPositiveInteger_def)

lemma setCurrencies_done: "fst (setCurrencies pow scales cs) = (None \<notin> set cs)"
  by (induction pow scales cs rule: setCurrencies.induct) (simp_all del: fun_upd_apply)

lemma setProducts_done: "fst (setProducts pow scales entries ps) = (None \<notin> set ps)"
  by (induction pow scales entries ps rule: setProducts.induct) (simp_all del: fun_upd_apply)

lemma setProductsV2_done: "fst (setProductsV2 pow entries vs) = (None \<notin> set vs)"
  by (induction pow entries vs rule: setProductsV2.induct) (simp_all del: fun_upd_apply)

lemma setCurrencies_good:
  assumes "accurate pow" and "goodScales scales"
    and "\<forall>cu. Some cu \<in> set cs \<longrightarrow> reported (RawCurrency.valueScale cu)"
  shows "goodScales (snd (setCurrencies pow scales cs))"
  using assms(2,3)
proof (induction cs arbitrary: scales)
  case Nil
  then show ?case by simp
next
  case (Cons x cs)
  show ?case
  proof (cases x)
    case None
    then show ?thesis using Cons.prems(1) by simp
  next
    case (Some c)
    have "reported (RawCurrency.valueScale c)" using Cons.prems(2) Some by simp
    then have "isPositiveInteger (Math_pow10 pow (RawCurrency.valueScale c))"
      by (rule accurate_positive_integer [OF assms(1)])
    then have g: "goodScales (scales(currency c \<mapsto> Math_pow10 pow (RawCurrency.valueScale c)))"
      using Cons.prems(1) by (simp add: goodScales_def)
    have r: "\<forall>cu. Some cu \<in> set cs \<longrightarrow> reported (RawCurrency.valueScale cu)"
      using Cons.prems(2) by simp
    from Cons.IH [OF g r] show ?thesis by (simp only: Some setCurrencies.simps)
  qed
qed

lemma setCurrencies_absent:
  assumes "scales k = None" and "\<forall>cu. Some cu \<in> set cs \<longrightarrow> currency cu \<noteq> k"
  shows "snd (setCurrencies pow scales cs) k = None"
  using assms
proof (induction cs arbitrary: scales)
  case Nil
  then show ?case by simp
next
  case (Cons x cs)
  show ?case
  proof (cases x)
    case None
    then show ?thesis using Cons.prems(1) by simp
  next
    case (Some c)
    have "currency c \<noteq> k" using Cons.prems(2) Some by simp
    then have g: "(scales(currency c \<mapsto> Math_pow10 pow (RawCurrency.valueScale c))) k = None"
      using Cons.prems(1) by simp
    have r: "\<forall>cu. Some cu \<in> set cs \<longrightarrow> currency cu \<noteq> k" using Cons.prems(2) by simp
    from Cons.IH [of "scales(currency c \<mapsto> Math_pow10 pow (RawCurrency.valueScale c))", OF g r]
    show ?thesis by (simp only: Some setCurrencies.simps)
  qed
qed

lemma set_present: "iterate xs = Some l \<Longrightarrow> set (present xs) = {x. Some x \<in> set l}"
  by (cases xs) (auto simp: iterate_def present_def split: option.splits)

lemma complete_iterate: "complete xs = (case iterate xs of None \<Rightarrow> False | Some l \<Rightarrow> None \<notin> set l)"
  by (cases xs) (simp_all add: complete_def iterate_def)

lemma fromProduct_update:
  assumes host: "accurate pow" and scales: "goodScales scales"
    and inv: "\<forall>s info. entries s = Some info \<longrightarrow> fromProduct pow scales ps s info"
    and p: "Some p \<in> set ps"
    and r: "reported (RawProduct.priceScale p)" "reported (RawProduct.ratioScale p)"
    and ct: "ct \<noteq> Linear"
  shows "\<forall>s info.
    (entries(RawProduct.symbol p \<mapsto>
      \<lparr>ProductInfo.symbol = RawProduct.symbol p, contractType = ct,
       priceScale = Math_pow10 pow (RawProduct.priceScale p),
       ratioScale = Math_pow10 pow (RawProduct.ratioScale p),
       valueScale = (case scales (RawProduct.settleCurrency p) of
                       None \<Rightarrow> Math_pow10 pow (Some 8) | Some v \<Rightarrow> v),
       contractSize = csz\<rparr>)) s = Some info \<longrightarrow> fromProduct pow scales ps s info"
proof -
  define rec where "rec =
     \<lparr>ProductInfo.symbol = RawProduct.symbol p, contractType = ct,
       priceScale = Math_pow10 pow (RawProduct.priceScale p),
       ratioScale = Math_pow10 pow (RawProduct.ratioScale p),
       valueScale = (case scales (RawProduct.settleCurrency p) of
                       None \<Rightarrow> Math_pow10 pow (Some 8) | Some v \<Rightarrow> v),
       contractSize = csz\<rparr>"
  have v: "isPositiveInteger (case scales (RawProduct.settleCurrency p) of
             None \<Rightarrow> Math_pow10 pow (Some 8) | Some v \<Rightarrow> v)"
    using scales accurate_positive_integer [OF host, of "Some 8"]
    by (auto simp: goodScales_def reported_def split: option.splits)
  have "goodInfo rec"
    using v r by (simp add: goodInfo_def rec_def accurate_positive_integer [OF host])
  then have "fromProduct pow scales ps (RawProduct.symbol p) rec"
    using p ct unfolding fromProduct_def by (auto simp: rec_def)
  then show ?thesis using inv unfolding rec_def [symmetric] by simp
qed

lemma setProducts_inv:
  assumes host: "accurate pow" and scales: "goodScales scales"
    and inv: "\<forall>s info. entries s = Some info \<longrightarrow> fromProduct pow scales all s info"
    and sub: "set ps \<subseteq> set all"
    and r: "\<forall>p. Some p \<in> set all \<longrightarrow>
              reported (RawProduct.priceScale p) \<and> reported (RawProduct.ratioScale p)"
  shows "\<forall>s info. snd (setProducts pow scales entries ps) s = Some info
           \<longrightarrow> fromProduct pow scales all s info"
  using inv sub
proof (induction ps arbitrary: entries)
  case Nil
  then show ?case by simp
next
  case (Cons x ps)
  have sub': "set ps \<subseteq> set all" using Cons.prems(2) by simp
  show ?case
  proof (cases x)
    case None
    then show ?thesis using Cons.prems(1) by simp
  next
    case (Some p)
    have p: "Some p \<in> set all" using Cons.prems(2) Some by simp
    then have rp: "reported (RawProduct.priceScale p)" "reported (RawProduct.ratioScale p)"
      using r by simp_all
    define entries' where "entries' =
       (if RawProduct.status p \<noteq> ''Listed'' then entries
        else if RawProduct.type p = ''Perpetual'' then
          entries(RawProduct.symbol p \<mapsto>
            \<lparr>ProductInfo.symbol = RawProduct.symbol p, contractType = Inverse,
             priceScale = Math_pow10 pow (RawProduct.priceScale p),
             ratioScale = Math_pow10 pow (RawProduct.ratioScale p),
             valueScale = (case scales (RawProduct.settleCurrency p) of
                             None \<Rightarrow> Math_pow10 pow (Some 8) | Some v \<Rightarrow> v),
             contractSize = (case RawProduct.contractSize p of
                               None \<Rightarrow> Finite False 1 | Some n \<Rightarrow> n)\<rparr>)
        else if RawProduct.type p = ''Spot'' then
          entries(RawProduct.symbol p \<mapsto>
            \<lparr>ProductInfo.symbol = RawProduct.symbol p, contractType = Spot,
             priceScale = Math_pow10 pow (RawProduct.priceScale p),
             ratioScale = Math_pow10 pow (RawProduct.ratioScale p),
             valueScale = (case scales (RawProduct.settleCurrency p) of
                             None \<Rightarrow> Math_pow10 pow (Some 8) | Some v \<Rightarrow> v),
             contractSize = Finite False 1\<rparr>)
        else entries)"
    have i: "\<forall>s info. entries' s = Some info \<longrightarrow> fromProduct pow scales all s info"
    proof (cases "RawProduct.status p \<noteq> ''Listed''")
      case True
      then show ?thesis unfolding entries'_def using Cons.prems(1) by (simp only: if_P if_True if_False not_False_eq_True not_True_eq_False)
    next
      case unlisted: False
      show ?thesis
      proof (cases "RawProduct.type p = ''Perpetual''")
        case True
        show ?thesis
          unfolding entries'_def
          using fromProduct_update [OF host scales Cons.prems(1) p rp, of Inverse]
          by (simp only: unlisted True if_P if_not_P if_True if_False not_False_eq_True not_True_eq_False) simp
      next
        case perp: False
        show ?thesis
        proof (cases "RawProduct.type p = ''Spot''")
          case True
          show ?thesis
            unfolding entries'_def
            using fromProduct_update [OF host scales Cons.prems(1) p rp, of Spot]
            by (simp only: unlisted perp True if_P if_not_P if_True if_False not_False_eq_True not_True_eq_False) simp
        next
          case False
          show ?thesis
            unfolding entries'_def using Cons.prems(1)
            by (simp only: unlisted perp False if_P if_not_P if_True if_False not_False_eq_True not_True_eq_False)
        qed
      qed
    qed
    have "setProducts pow scales entries (x # ps) = setProducts pow scales entries' ps"
      by (simp only: Some setProducts.simps entries'_def)
    then show ?thesis using Cons.IH [OF i sub'] by (simp only:)
  qed
qed

lemma fromProductV2_update:
  assumes host: "accurate pow"
    and inv: "\<forall>s info. entries s = Some info
                \<longrightarrow> fromProduct pow scales ps s info \<or> fromProductV2 pow vs s info"
    and p: "Some p \<in> set vs"
    and r: "RawProductV2.priceScale p = None \<or> reported (RawProductV2.priceScale p)"
        "RawProductV2.ratioScale p = None \<or> reported (RawProductV2.ratioScale p)"
  shows "\<forall>s info.
    (entries(RawProductV2.symbol p \<mapsto>
      \<lparr>ProductInfo.symbol = RawProductV2.symbol p, contractType = Linear,
       priceScale = (if truthy (RawProductV2.priceScale p)
                     then Math_pow10 pow (RawProductV2.priceScale p) else Finite False 1),
       ratioScale = (if truthy (RawProductV2.ratioScale p)
                     then Math_pow10 pow (RawProductV2.ratioScale p) else Finite False 1),
       valueScale = Finite False 1,
       contractSize = Finite False 1\<rparr>)) s = Some info
    \<longrightarrow> fromProduct pow scales ps s info \<or> fromProductV2 pow vs s info"
proof -
  define rec where "rec =
     \<lparr>ProductInfo.symbol = RawProductV2.symbol p, contractType = Linear,
       priceScale = (if truthy (RawProductV2.priceScale p)
                     then Math_pow10 pow (RawProductV2.priceScale p) else Finite False 1),
       ratioScale = (if truthy (RawProductV2.ratioScale p)
                     then Math_pow10 pow (RawProductV2.ratioScale p) else Finite False 1),
       valueScale = Finite False 1,
       contractSize = Finite False 1\<rparr>"
  have sc: "isPositiveInteger (if truthy x then Math_pow10 pow x else Finite False 1)"
    if "x = None \<or> reported x" for x
    using that accurate_positive_integer [OF host, of x] isPositiveInteger_one
    by (auto simp: truthy_def)
  have "goodInfo rec"
    using sc [OF r(1)] sc [OF r(2)] isPositiveInteger_one by (simp add: goodInfo_def rec_def)
  then have "fromProductV2 pow vs (RawProductV2.symbol p) rec"
    using p unfolding fromProductV2_def by (auto simp: rec_def)
  then show ?thesis using inv unfolding rec_def [symmetric] by simp
qed

lemma setProductsV2_inv:
  assumes host: "accurate pow"
    and inv: "\<forall>s info. entries s = Some info
                \<longrightarrow> fromProduct pow scales ps s info \<or> fromProductV2 pow all s info"
    and sub: "set vs \<subseteq> set all"
    and r: "\<forall>p. Some p \<in> set all \<longrightarrow>
              (RawProductV2.priceScale p = None \<or> reported (RawProductV2.priceScale p))
            \<and> (RawProductV2.ratioScale p = None \<or> reported (RawProductV2.ratioScale p))"
  shows "\<forall>s info. snd (setProductsV2 pow entries vs) s = Some info
           \<longrightarrow> fromProduct pow scales ps s info \<or> fromProductV2 pow all s info"
  using inv sub
proof (induction vs arbitrary: entries)
  case Nil
  then show ?case by simp
next
  case (Cons x vs)
  have sub': "set vs \<subseteq> set all" using Cons.prems(2) by simp
  show ?case
  proof (cases x)
    case None
    then show ?thesis using Cons.prems(1) by simp
  next
    case (Some p)
    have p: "Some p \<in> set all" using Cons.prems(2) Some by simp
    then have rp: "RawProductV2.priceScale p = None \<or> reported (RawProductV2.priceScale p)"
      "RawProductV2.ratioScale p = None \<or> reported (RawProductV2.ratioScale p)"
      using r by simp_all
    define entries' where "entries' =
       (if RawProductV2.status p = ''Listed'' then
          entries(RawProductV2.symbol p \<mapsto>
            \<lparr>ProductInfo.symbol = RawProductV2.symbol p, contractType = Linear,
             priceScale = (if truthy (RawProductV2.priceScale p)
                           then Math_pow10 pow (RawProductV2.priceScale p) else Finite False 1),
             ratioScale = (if truthy (RawProductV2.ratioScale p)
                           then Math_pow10 pow (RawProductV2.ratioScale p) else Finite False 1),
             valueScale = Finite False 1,
             contractSize = Finite False 1\<rparr>)
        else entries)"
    have i: "\<forall>s info. entries' s = Some info
               \<longrightarrow> fromProduct pow scales ps s info \<or> fromProductV2 pow all s info"
    proof (cases "RawProductV2.status p = ''Listed''")
      case True
      show ?thesis
        unfolding entries'_def
        using fromProductV2_update [OF host Cons.prems(1) p rp]
        by (simp only: True if_P if_True if_False)
    next
      case False
      show ?thesis unfolding entries'_def using Cons.prems(1) by (simp only: False if_not_P if_True if_False)
    qed
    have "setProductsV2 pow entries (x # vs) = setProductsV2 pow entries' vs"
      by (simp only: Some setProductsV2.simps entries'_def)
    then show ?thesis using Cons.IH [OF i sub'] by (simp only:)
  qed
qed

section \<open>Evaluating the number operations\<close>

text \<open>
  Rules that settle one step of a conversion from the bounds of its argument, and the
  conversions the examples below use.
\<close>

declare digitsOf.simps [simp del]

lemma digitChar_simps [simp]:
  "digitChar 0 = CHR ''0''" "digitChar 1 = CHR ''1''" "digitChar 2 = CHR ''2''"
  "digitChar 3 = CHR ''3''" "digitChar 4 = CHR ''4''" "digitChar 5 = CHR ''5''"
  "digitChar 6 = CHR ''6''" "digitChar 7 = CHR ''7''" "digitChar 8 = CHR ''8''"
  "digitChar 9 = CHR ''9''"
  by (simp_all add: digitChar_def)

lemma digitsOf_numeral:
  "digitsOf (numeral n) =
     (if (numeral n :: nat) < 10 then [digitChar (numeral n)]
      else digitsOf (numeral n div 10) @ [digitChar (numeral n mod 10)])"
  by (rule digitsOf.simps)

lemma nearestValid_none:
  assumes "of_int lo \<le> m / 10 powi p" and "m / 10 powi p < of_int lo + 1"
    and "toDouble (of_int lo * 10 powi p) \<noteq> Some m"
    and "toDouble (of_int (lo + 1) * 10 powi p) \<noteq> Some m"
  shows "nearestValid m p = None"
proof -
  have f: "\<lfloor>m / 10 powi p\<rfloor> = lo" using assms(1,2) by (rule floor_unique)
  have "\<lceil>m / 10 powi p\<rceil> = lo \<or> \<lceil>m / 10 powi p\<rceil> = lo + 1"
  proof (cases "m / 10 powi p = of_int lo")
    case True
    then show ?thesis by simp
  next
    case False
    then have "of_int (lo + 1) - 1 < m / 10 powi p" "m / 10 powi p \<le> of_int (lo + 1)"
      using assms(1,2) by simp_all
    then have "\<lceil>m / 10 powi p\<rceil> = lo + 1" by (rule ceiling_unique)
    then show ?thesis by simp
  qed
  then show ?thesis using f assms(3,4) by (auto simp: nearestValid_def Let_def)
qed

lemma nearestValid_exact:
  assumes "m / 10 powi p = of_int s" and "toDouble m = Some m"
  shows "nearestValid m p = Some s"
proof -
  have "of_int s * 10 powi p = m" using assms(1) ten_powi_pos [of p] by (simp add: field_simps)
  then show ?thesis using assms by (simp add: nearestValid_def Let_def)
qed

lemma toDouble_numeral:
  assumes "numeral n < (2::int) ^ 53"
  shows "toDouble (numeral n) = Some (numeral n)"
  using toDouble_of_int [of "numeral n"] assms by simp

lemma toDouble_1: "toDouble 1 = Some 1"
  using toDouble_of_int [of 1] by simp

lemma dexp: "decimalExponent (100001 / 2) = 5"
  by (rule decimalExponent_unique) simp_all

lemma td: "toDouble (100001 / 2) = Some (100001 / 2)"
  using toDouble_exact [of 100001 "- 1"] by (simp add: maxDouble_def)

lemma nv4: "nearestValid (100001 / 2) 4 = None"
  by (rule nearestValid_none [of 5]) (simp_all add: toDouble_numeral)

lemma nv3: "nearestValid (100001 / 2) 3 = None"
  by (rule nearestValid_none [of 50]) (simp_all add: toDouble_numeral)

lemma nv2: "nearestValid (100001 / 2) 2 = None"
  by (rule nearestValid_none [of 500]) (simp_all add: toDouble_numeral)

lemma nv1: "nearestValid (100001 / 2) 1 = None"
  by (rule nearestValid_none [of 5000]) (simp_all add: toDouble_numeral)

lemma nv0: "nearestValid (100001 / 2) 0 = None"
  by (rule nearestValid_none [of 50000]) (simp_all add: toDouble_numeral)

lemma nvm1: "nearestValid (100001 / 2) (- 1) = Some 500005"
  by (rule nearestValid_exact) (simp_all add: td)

lemma shortestDecimal_skip:
  "nearestValid m p = None \<Longrightarrow> shortestDecimal (Suc fuel) m p = shortestDecimal fuel m (p - 1)"
  by simp

lemma shortestDecimal_found:
  "nearestValid m p = Some s \<Longrightarrow> shortestDecimal fuel m p = (s, p)"
  by (cases fuel) simp_all

lemma sd: "shortestDecimal (Suc (Suc (Suc (Suc (Suc (Suc f)))))) (100001 / 2) 4 = (500005, - 1)"
  by (simp add: nv4 nv3 nv2 nv1 nv0 shortestDecimal_found [OF nvm1])

lemma sd16: "shortestDecimal 16 (100001 / 2) 4 = (500005, - 1)"
proof -
  have "(16::nat) = Suc (Suc (Suc (Suc (Suc (Suc 10)))))" by simp
  then show ?thesis by (simp only: sd)
qed

lemma dg: "digitsOf 500005 = ''500005''"
  by (simp add: digitsOf_numeral)

lemma ts: "positiveToString (100001 / 2) = ''50000.5''"
  by (simp add: positiveToString_def dexp sd16 dg)

lemma tsd: "toString (divide_number (Finite False 500005000) (Finite False 10000)) = ''50000.5''"
  by (simp add: mkNumber_def td ts)

lemma digitsOf_Suc_0: "digitsOf (Suc 0) = ''1''"
  using digitsOf.simps [of 1] by (simp add: digitChar_def)

lemma toDouble_neqI:
  assumes "2 powi E \<le> c" and "c < 2 powi (E + 1)" and "- 1022 \<le> E"
    and "2 powi (E - 53) < \<bar>r - c\<bar>"
  shows "toDouble c \<noteq> Some r"
proof
  assume r: "toDouble c = Some r"
  have c: "0 < c" using assms(1) two_powi_pos [of E] by linarith
  have "ilog2 c = E" using assms(1,2) by (rule ilog2_unique)
  then have "ulpExp c - 1 = E - 53" using assms(3) by (simp add: ulpExp_def)
  with toDouble_error [OF c r] have "\<bar>r - c\<bar> \<le> 2 powi (E - 53)" by (simp only:)
  with assms(4) show False by simp
qed

lemma nearestValid_hi:
  assumes "of_int lo < m / 10 powi p" and "m / 10 powi p < of_int lo + 1"
    and "toDouble (of_int lo * 10 powi p) \<noteq> Some m"
    and "toDouble (of_int (lo + 1) * 10 powi p) = Some m"
  shows "nearestValid m p = Some (lo + 1)"
proof -
  have f: "\<lfloor>m / 10 powi p\<rfloor> = lo" using assms(1,2) by (intro floor_unique) simp_all
  have "of_int (lo + 1) - 1 < m / 10 powi p" "m / 10 powi p \<le> of_int (lo + 1)"
    using assms(1,2) by simp_all
  then have "\<lceil>m / 10 powi p\<rceil> = lo + 1" by (rule ceiling_unique)
  then show ?thesis using f assms(3,4) by (simp add: nearestValid_def Let_def)
qed

text \<open>The double nearest to \<open>1e-7\<close>.\<close>

lemma toDouble_1em7: "toDouble (1 / 10000000) = Some (7555786372591432 * 2 powi (- 76))"
  using toDouble_eqI [of "- 24" "1 / 10000000" 7555786372591432]
  by (simp add: maxDouble_def)

lemma parseFloat_1em7: "parseFloat ''0.0000001'' = Finite False (7555786372591432 * 2 powi (- 76))"
  by (simp add: parseFloat_def splitSign_def isWhiteSpace_def isDigit_def digitsValue_def
      digitValue_def exponentPart_def mkNumber_def toDouble_1em7)

lemma times_1em7: "times_number (Finite False (7555786372591432 * 2 powi (- 76)))
    (Finite False 100000000) = Finite False 10"
proof -
  have "toDouble (7555786372591432 * 2 powi (- 76) * 100000000)
      = Some (of_int 5629499534213120 * 2 powi (3 - 52))"
    by (rule toDouble_eqI) (simp_all add: maxDouble_def)
  then show ?thesis by (simp add: mkNumber_def)
qed

lemma divide_10: "divide_number (Finite False 10) (Finite False 100000000)
    = Finite False (7555786372591432 * 2 powi (- 76))"
  by (simp add: mkNumber_def toDouble_1em7)

lemma toString_1em7: "toString (Finite False (7555786372591432 * 2 powi (- 76))) = ''1e-7''"
proof -
  define m :: rat where "m = 7555786372591432 * 2 powi (- 76)"
  have de: "decimalExponent m = - 7"
    unfolding m_def by (rule decimalExponent_unique) simp_all
  have n9: "toDouble (of_int 9 * 10 powi (- 8)) \<noteq> Some m"
    unfolding m_def by (rule toDouble_neqI [of "- 24"]) simp_all
  have "toDouble (of_int (9 + 1) * 10 powi (- 8)) = Some m"
    unfolding m_def using toDouble_1em7 by simp
  with n9 have "nearestValid m (- 8) = Some (9 + 1)"
    by (intro nearestValid_hi) (simp_all add: m_def)
  then have sd: "shortestDecimal 16 m (- 8) = (10, - 8)"
    by (simp add: shortestDecimal_found)
  have sz: "stripZeros (10, - 8) = (1, - 7)" by simp
  have "positiveToString m = ''1e-7''"
    by (simp add: positiveToString_def de sd sz digitsOf_numeral digitsOf_Suc_0)
  moreover have "m \<noteq> 0" by (simp add: m_def)
  ultimately show ?thesis by (simp add: m_def)
qed

lemma positiveToString_1: "positiveToString 1 = ''1''"
proof -
  have de: "decimalExponent 1 = 1" by (rule decimalExponent_unique) simp_all
  have "nearestValid 1 0 = Some 1"
    using toDouble_1 by (intro nearestValid_exact) simp_all
  then have sd: "shortestDecimal 16 1 0 = (1, 0)" by (simp add: shortestDecimal_found)
  show ?thesis
    by (simp add: positiveToString_def de sd digitsOf_Suc_0)
qed

lemma positiveToString_2: "positiveToString 2 = ''2''"
proof -
  have de: "decimalExponent 2 = 1" by (rule decimalExponent_unique) simp_all
  have "nearestValid 2 0 = Some 2"
    using toDouble_of_int [of 2] by (intro nearestValid_exact) simp_all
  then have sd: "shortestDecimal 16 2 0 = (2, 0)" by (simp add: shortestDecimal_found)
  show ?thesis
    by (simp add: positiveToString_def de sd digitsOf_numeral)
qed

section \<open>The sample caches\<close>

lemma roundedPow_4: "roundedPow 4 = Finite False 10000"
  by (simp add: roundedPow_def mkNumber_def toDouble_numeral)

lemma roundedPow_8: "roundedPow 8 = Finite False 100000000"
  by (simp add: roundedPow_def mkNumber_def toDouble_numeral)

lemma roundedPow_309: "roundedPow 309 = Infinity False"
proof -
  have "(2::rat) powi 1024 \<le> 10 powi 309" by simp
  from toDouble_overflow [OF this] show ?thesis by (simp add: roundedPow_def mkNumber_def)
qed

lemma get_sampleCache_BTCUSD:
  "get sampleCache ''BTCUSD'' =
     Some \<lparr>ProductInfo.symbol = ''BTCUSD'', contractType = Inverse,
           priceScale = Finite False 10000, ratioScale = Finite False 100000000,
           valueScale = Finite False 100000000, contractSize = Finite False 1\<rparr>"
  by (simp add: get_def sampleCache_def sampleData_def constructor_def iterate_def
      Math_pow10_def roundedPow_4 roundedPow_8)

lemma get_sampleCache_sBTCUSDT:
  "get sampleCache ''sBTCUSDT'' =
     Some \<lparr>ProductInfo.symbol = ''sBTCUSDT'', contractType = Spot,
           priceScale = Finite False 100000000, ratioScale = Finite False 100000000,
           valueScale = Finite False 100000000, contractSize = Finite False 1\<rparr>"
  by (simp add: get_def sampleCache_def sampleData_def constructor_def iterate_def
      Math_pow10_def roundedPow_8)

section \<open>The loop of convertResponse\<close>

lemma endsWith_slice0:
  assumes "endsWith key suf" and "length suf = n"
  shows "key = slice0 key n @ suf"
proof -
  from assms(1) obtain zs where "key = zs @ suf" by (auto simp: endsWith_def suffix_def)
  then show ?thesis using assms(2) by (simp add: slice0_def)
qed

lemma map_of_insertIndex: "map_of (insertIndex key v obj) = (map_of obj)(key \<mapsto> v)"
proof (induction obj)
  case Nil
  then show ?case by simp
next
  case (Cons kw obj)
  obtain k w where kw: "kw = (k, w)" by (cases kw)
  show ?case
  proof (cases "isArrayIndex k \<and> digitsValue k < digitsValue key")
    case True
    then have "k \<noteq> key" by auto
    then show ?thesis using True Cons kw by (auto simp: fun_eq_iff)
  next
    case False
    then show ?thesis using kw by auto
  qed
qed

lemma map_of_setProperty:
  "map_of (setProperty obj key v) =
     (if key = ''__proto__'' then map_of obj else (map_of obj)(key \<mapsto> v))"
proof -
  have "map_of (obj @ [(key, v)]) = (map_of obj)(key \<mapsto> v)" if "\<not> hasProperty obj key"
  proof
    fix k
    have "map_of obj key = None" using that by (simp add: hasProperty_def map_of_eq_None_iff)
    then show "map_of (obj @ [(key, v)]) k = ((map_of obj)(key \<mapsto> v)) k"
      by (cases "map_of obj k") (auto simp: map_add_def split: option.splits)
  qed
  then show ?thesis
    by (simp add: setProperty_def update_conv' map_of_insertIndex)
qed

lemma setProperty_suffix:
  assumes "endsWith key suf" and "length suf = 2"
  shows "map_of (setProperty result (slice0 key 2) v) k = map_of result k
    \<or> (key = k @ suf \<and> map_of (setProperty result (slice0 key 2) v) k = Some v)"
proof (cases "slice0 key 2 = k \<and> k \<noteq> ''__proto__''")
  case True
  have "key = slice0 key 2 @ suf" using assms by (rule endsWith_slice0)
  then have "key = k @ suf" using True by simp
  moreover have "map_of (setProperty result (slice0 key 2) v) k = Some v"
    using True by (simp add: map_of_setProperty)
  ultimately show ?thesis by simp
next
  case False
  then have "map_of (setProperty result (slice0 key 2) v) k = map_of result k"
    by (auto simp: map_of_setProperty)
  then show ?thesis by simp
qed

lemma setProperty_other:
  "key \<noteq> k \<Longrightarrow> map_of (setProperty result key v) k = map_of result k"
  by (simp add: map_of_setProperty)

lemma isNumber_JNumber: "isNumber v \<Longrightarrow> JNumber (numberOf v) = v"
  by (cases v) (simp_all add: isNumber_def numberOf_def)

lemma convertEntries_plain_key:
  assumes sib: "hasProperty obj (k @ ''Ep'') \<or> hasProperty obj (k @ ''Er'')
    \<or> hasProperty obj (k @ ''Ev'')"
  shows "map_of (convertEntries c symb info obj entries result) k = map_of result k
    \<or> (\<exists>n. (k @ ''Ep'', JNumber n) \<in> set entries
          \<and> map_of (convertEntries c symb info obj entries result) k
              = Some (unscaled (JNumber n) (ProductInfo.priceScale info)))
    \<or> (\<exists>n. (k @ ''Er'', JNumber n) \<in> set entries
          \<and> map_of (convertEntries c symb info obj entries result) k
              = Some (unscaled (JNumber n) (ProductInfo.ratioScale info)))
    \<or> (\<exists>n. (k @ ''Ev'', JNumber n) \<in> set entries
          \<and> map_of (convertEntries c symb info obj entries result) k
              = Some (unscaled (JNumber n) (ProductInfo.valueScale info)))"
    (is "?P entries result")
proof (induction entries arbitrary: result)
  case Nil
  show ?case by simp
next
  case (Cons kv rest)
  obtain key "value" where kv: "kv = (key, value)" by (cases kv)
  define pE where "pE \<longleftrightarrow> endsWith key ''Ep'' \<and> isNumber value"
  define rE where "rE \<longleftrightarrow> endsWith key ''Er'' \<and> isNumber value"
  define vE where "vE \<longleftrightarrow> endsWith key ''Ev'' \<and> isNumber value"
  define sk where "sk \<longleftrightarrow> hasProperty obj (key @ ''Ep'') \<or> hasProperty obj (key @ ''Er'')
                \<or> hasProperty obj (key @ ''Ev'')"
  define ob where "ob \<longleftrightarrow> value \<noteq> JNull \<and> isObject value"
  define step where "step =
       (if pE then
          setProperty result (slice0 key 2) (unscaled value (ProductInfo.priceScale info))
        else if rE then
          setProperty result (slice0 key 2) (unscaled value (ProductInfo.ratioScale info))
        else if vE then
          setProperty result (slice0 key 2) (unscaled value (ProductInfo.valueScale info))
        else if sk then result
        else if ob then setProperty result key (convertResponse c symb value)
        else setProperty result key value)"
  have unfold: "convertEntries c symb info obj (kv # rest) result
      = convertEntries c symb info obj rest step"
    unfolding kv step_def pE_def rE_def vE_def sk_def ob_def
    by (simp only: convertEntries.simps)
  let ?out = "convertEntries c symb info obj rest step"
  have step_k: "map_of step k = map_of result k
    \<or> (key = k @ ''Ep'' \<and> isNumber value
          \<and> map_of step k = Some (unscaled value (ProductInfo.priceScale info)))
    \<or> (key = k @ ''Er'' \<and> isNumber value
          \<and> map_of step k = Some (unscaled value (ProductInfo.ratioScale info)))
    \<or> (key = k @ ''Ev'' \<and> isNumber value
          \<and> map_of step k = Some (unscaled value (ProductInfo.valueScale info)))"
  proof (cases pE)
    case True
    then have s: "step = setProperty result (slice0 key 2)
        (unscaled value (ProductInfo.priceScale info))"
      unfolding step_def by (simp only: if_True)
    from True have "endsWith key ''Ep''" "isNumber value" by (simp_all add: pE_def)
    with setProperty_suffix [of key "''Ep''" result _ k] show ?thesis
      unfolding s by auto
  next
    case nP: False
    show ?thesis
    proof (cases rE)
      case True
      then have s: "step = setProperty result (slice0 key 2)
          (unscaled value (ProductInfo.ratioScale info))"
        unfolding step_def using nP by (simp only: if_True if_False)
      from True have "endsWith key ''Er''" "isNumber value" by (simp_all add: rE_def)
      with setProperty_suffix [of key "''Er''" result _ k] show ?thesis
        unfolding s by auto
    next
      case nR: False
      show ?thesis
      proof (cases vE)
        case True
        then have s: "step = setProperty result (slice0 key 2)
            (unscaled value (ProductInfo.valueScale info))"
          unfolding step_def using nP nR by (simp only: if_True if_False)
        from True have "endsWith key ''Ev''" "isNumber value" by (simp_all add: vE_def)
        with setProperty_suffix [of key "''Ev''" result _ k] show ?thesis
          unfolding s by auto
      next
        case nV: False
        show ?thesis
        proof (cases sk)
          case True
          then have "step = result"
            unfolding step_def using nP nR nV by (simp only: if_True if_False)
          then show ?thesis by simp
        next
          case False
          then have "key \<noteq> k" using sib unfolding sk_def by blast
          moreover have "step = (if ob then setProperty result key (convertResponse c symb value)
              else setProperty result key value)"
            unfolding step_def using nP nR nV False by (simp only: if_True if_False)
          ultimately have "map_of step k = map_of result k"
            by (simp add: setProperty_other)
          then show ?thesis by simp
        qed
      qed
    qed
  qed
  have ih: "?P rest step" by (rule Cons.IH)
  have sub: "set rest \<subseteq> set (kv # rest)" by auto
  from ih consider
      (same) "map_of ?out k = map_of step k"
    | (ep) n where "(k @ ''Ep'', JNumber n) \<in> set rest"
        "map_of ?out k = Some (unscaled (JNumber n) (ProductInfo.priceScale info))"
    | (er) n where "(k @ ''Er'', JNumber n) \<in> set rest"
        "map_of ?out k = Some (unscaled (JNumber n) (ProductInfo.ratioScale info))"
    | (ev) n where "(k @ ''Ev'', JNumber n) \<in> set rest"
        "map_of ?out k = Some (unscaled (JNumber n) (ProductInfo.valueScale info))"
    by blast
  then show ?case
  proof cases
    case same
    from step_k consider
        (a) "map_of step k = map_of result k"
      | (b) "key = k @ ''Ep''" "isNumber value"
          "map_of step k = Some (unscaled value (ProductInfo.priceScale info))"
      | (c) "key = k @ ''Er''" "isNumber value"
          "map_of step k = Some (unscaled value (ProductInfo.ratioScale info))"
      | (d) "key = k @ ''Ev''" "isNumber value"
          "map_of step k = Some (unscaled value (ProductInfo.valueScale info))"
      by blast
    then show ?thesis
    proof cases
      case a
      then show ?thesis unfolding unfold using same by simp
    next
      case b
      have "(k @ ''Ep'', JNumber (numberOf value)) \<in> set (kv # rest)"
        using b(1,2) by (simp add: kv isNumber_JNumber)
      moreover have "map_of ?out k
          = Some (unscaled (JNumber (numberOf value)) (ProductInfo.priceScale info))"
        using same b(2,3) by (simp add: isNumber_JNumber)
      ultimately show ?thesis unfolding unfold by blast
    next
      case c
      have "(k @ ''Er'', JNumber (numberOf value)) \<in> set (kv # rest)"
        using c(1,2) by (simp add: kv isNumber_JNumber)
      moreover have "map_of ?out k
          = Some (unscaled (JNumber (numberOf value)) (ProductInfo.ratioScale info))"
        using same c(2,3) by (simp add: isNumber_JNumber)
      ultimately show ?thesis unfolding unfold by blast
    next
      case d
      have "(k @ ''Ev'', JNumber (numberOf value)) \<in> set (kv # rest)"
        using d(1,2) by (simp add: kv isNumber_JNumber)
      moreover have "map_of ?out k
          = Some (unscaled (JNumber (numberOf value)) (ProductInfo.valueScale info))"
        using same d(2,3) by (simp add: isNumber_JNumber)
      ultimately show ?thesis unfolding unfold by blast
    qed
  next
    case ep
    then show ?thesis unfolding unfold using sub by blast
  next
    case er
    then show ?thesis unfolding unfold using sub by blast
  next
    case ev
    then show ?thesis unfolding unfold using sub by blast
  qed
qed

lemma convertEntries_append:
  "convertEntries c symb info obj (xs @ ys) result
     = convertEntries c symb info obj ys (convertEntries c symb info obj xs result)"
proof (induction xs arbitrary: result)
  case Nil
  show ?case by simp
next
  case (Cons kv xs)
  obtain key "value" where kv: "kv = (key, value)" by (cases kv)
  show ?case unfolding kv by (simp only: append_Cons convertEntries.simps Cons.IH)
qed

lemma convertEntries_same_keys:
  assumes "\<And>x. hasProperty obj x = hasProperty obj' x"
  shows "convertEntries c symb info obj entries result
     = convertEntries c symb info obj' entries result"
proof (induction entries arbitrary: result)
  case Nil
  show ?case by simp
next
  case (Cons kv entries)
  obtain key "value" where kv: "kv = (key, value)" by (cases kv)
  show ?case unfolding kv by (simp only: convertEntries.simps assms Cons.IH)
qed

lemma convertEntries_skip:
  assumes "hasProperty obj (k @ ''Ep'') \<or> hasProperty obj (k @ ''Er'') \<or> hasProperty obj (k @ ''Ev'')"
    and "\<not> isScaledField k v"
  shows "convertEntries c symb info obj ((k, v) # rest) result
     = convertEntries c symb info obj rest result"
proof -
  have "\<not> (endsWith k ''Ep'' \<and> isNumber v)" "\<not> (endsWith k ''Er'' \<and> isNumber v)"
    "\<not> (endsWith k ''Ev'' \<and> isNumber v)"
    using assms(2) by (auto simp: isScaledField_def)
  then show ?thesis using assms(1) by (simp only: convertEntries.simps if_False if_True)
qed

lemma convertEntries_replace:
  assumes "hasProperty obj (k @ ''Ep'') \<or> hasProperty obj (k @ ''Er'') \<or> hasProperty obj (k @ ''Ev'')"
    and "\<not> isScaledField k v"
  shows "convertEntries c symb info obj (pre @ (k, v) # post) result
     = convertEntries c symb info obj (pre @ post) result"
  by (simp only: convertEntries_append convertEntries_skip [OF assms])

lemma hasProperty_replace:
  "hasProperty (pre @ (k, v) # post) x = hasProperty (pre @ (k, v') # post) x"
  by (simp add: hasProperty_def)

section \<open>The round trip of a decimal\<close>

text \<open>
  A decimal \<open>s * 10 ^ p\<close> of at most 15 digits is the shortest decimal that rounds to its
  double, so \<open>toString\<close> finds it; \<open>parseFloat\<close> reads the canonical string as the decimal it
  denotes; and the product with the scale factor rounds back to the scaled integer.
\<close>

declare stripZeros.simps [simp del]

lemma stripZeros_props:
  assumes "0 < s" and "stripZeros (s, p) = (s', p')"
  shows "0 < s' \<and> s' mod 10 \<noteq> 0 \<and> p \<le> p' \<and> s' \<le> s
    \<and> (of_int s' :: rat) * 10 powi p' = of_int s * 10 powi p"
  using assms
proof (induction "(s, p)" arbitrary: s p rule: stripZeros.induct)
  case (1 s p)
  show ?case
  proof (cases "s mod 10 = 0")
    case True
    then have r: "stripZeros (s div 10, p + 1) = (s', p')"
      using "1.prems" by (simp add: stripZeros.simps [of s p])
    have d: "0 < s div 10" using True "1.prems"(1) by presburger
    have ih: "0 < s' \<and> s' mod 10 \<noteq> 0 \<and> p + 1 \<le> p' \<and> s' \<le> s div 10
      \<and> (of_int s' :: rat) * 10 powi p' = of_int (s div 10) * 10 powi (p + 1)"
      using "1.hyps" [OF _ d r] True "1.prems"(1) by simp
    have "s = s div 10 * 10" using True by presburger
    then have "(of_int s :: rat) = of_int (s div 10) * 10"
      by (metis of_int_mult of_int_numeral)
    then have "(of_int (s div 10) :: rat) * 10 powi (p + 1) = of_int s * 10 powi p"
      by (simp add: power_int_add)
    moreover have "s div 10 \<le> s" using "1.prems"(1) by simp
    ultimately show ?thesis using ih by simp
  next
    case False
    then have "stripZeros (s, p) = (s, p)" by (simp add: stripZeros.simps [of s p])
    then show ?thesis using "1.prems" False by simp
  qed
qed

lemma stripZeros_id: "s mod 10 \<noteq> 0 \<Longrightarrow> stripZeros (s, p) = (s, p)"
  by (simp add: stripZeros.simps [of s p])

lemma length_digitsOf_pos: "0 < length (digitsOf n)"
  by (subst digitsOf.simps) simp

lemma digitsOf_upper: "n < 10 ^ length (digitsOf n)"
proof (induction n rule: digitsOf.induct)
  case (1 n)
  show ?case
  proof (cases "n < 10")
    case True
    then show ?thesis by (subst digitsOf.simps) simp
  next
    case False
    then have ih: "n div 10 < 10 ^ length (digitsOf (n div 10))" using 1 by simp
    have l: "length (digitsOf n) = Suc (length (digitsOf (n div 10)))"
      using False by (subst digitsOf.simps) simp
    have "n < 10 * (n div 10 + 1)" by presburger
    also have "\<dots> \<le> 10 * 10 ^ length (digitsOf (n div 10))" using ih by simp
    finally show ?thesis by (simp add: l)
  qed
qed

lemma digitsOf_lower: "0 < n \<Longrightarrow> 10 ^ (length (digitsOf n) - 1) \<le> n"
proof (induction n rule: digitsOf.induct)
  case (1 n)
  show ?case
  proof (cases "n < 10")
    case True
    then show ?thesis using "1.prems" by (subst digitsOf.simps) simp
  next
    case False
    then have p: "0 < n div 10" by simp
    have ih: "10 ^ (length (digitsOf (n div 10)) - 1) \<le> n div 10" using 1 False p by simp
    have l: "length (digitsOf n) = Suc (length (digitsOf (n div 10)))"
      using False by (subst digitsOf.simps) simp
    have "10 ^ (length (digitsOf n) - 1) = 10 * 10 ^ (length (digitsOf (n div 10)) - 1)"
      using length_digitsOf_pos [of "n div 10"] by (cases "length (digitsOf (n div 10))") (simp_all add: l)
    also have "\<dots> \<le> 10 * (n div 10)" using ih by simp
    also have "\<dots> \<le> n" by presburger
    finally show ?thesis .
  qed
qed

lemma two_powi_le_ten_powi: "(2::rat) powi (- 1022) \<le> 10 powi (- 22)"
proof -
  have "inverse ((2::rat) ^ 1022) \<le> inverse (10 ^ 22)" by (rule le_imp_inverse_le) simp_all
  then show ?thesis by (simp add: power_int_minus)
qed

lemma decimal_separation:
  assumes V: "V = of_int s0 * 10 powi p0" and s0: "0 < s0" "s0 < 10 ^ 15" and p0: "- 22 \<le> p0"
    and x: "toDouble V = Some x"
    and y: "y = of_int c * 10 powi p" and p: "p0 \<le> p" and c: "0 < c"
    and yx: "toDouble y = Some x"
  shows "y = V"
proof (rule ccontr)
  assume ne: "y \<noteq> V"
  define u :: rat where "u = 10 powi p0"
  have u: "0 < u" unfolding u_def by (rule ten_powi_pos)
  define c' where "c' = c * 10 ^ nat (p - p0)"
  have "(10::rat) powi p = 10 powi (p - p0) * 10 powi p0" by (simp add: power_int_diff)
  also have "(10::rat) powi (p - p0) = of_int (10 ^ nat (p - p0))" using p by (simp add: power_int_def)
  finally have yc: "y = of_int c' * u" unfolding y c'_def u_def by simp
  have Vs: "V = of_int s0 * u" unfolding V u_def ..
  have "c' \<noteq> s0" using ne yc Vs by auto
  then have "1 \<le> \<bar>c' - s0\<bar>" by simp
  then have "(1::rat) \<le> \<bar>of_int c' - of_int s0\<bar>"
    by (metis of_int_1 of_int_abs of_int_diff of_int_le_iff)
  then have "u \<le> \<bar>of_int c' - of_int s0\<bar> * u" using u by simp
  also have "\<dots> = \<bar>y - V\<bar>" using u by (simp add: yc Vs abs_mult flip: left_diff_distrib)
  finally have D: "u \<le> \<bar>y - V\<bar>" .
  have c'1: "1 \<le> c'" unfolding c'_def using c
    by (metis less_le_not_le mult_le_cancel_left1 one_le_numeral one_le_power nle_le zero_less_iff_neq_zero zle_diff1_eq diff_ge_0_iff_ge mult_pos_pos zero_less_numeral zero_less_power)
  then have "(1::rat) \<le> of_int c'" by simp
  then have yu: "u \<le> y" using u by (simp add: yc)
  have "(1::rat) \<le> of_int s0" using s0(1) by simp
  then have Vu: "u \<le> V" using u by (simp add: Vs)
  have n: "2 powi (- 1022) \<le> u"
    unfolding u_def using two_powi_le_ten_powi ten_powi_mono [OF p0] by linarith
  have y0: "0 < y" and V0: "0 < V" using yu Vu u by linarith+
  have ey: "\<bar>x - y\<bar> \<le> y / 2 ^ 53" using toDouble_rel_error [OF y0 yx] n yu by linarith
  have eV: "\<bar>x - V\<bar> \<le> V / 2 ^ 53" using toDouble_rel_error [OF V0 x] n Vu by linarith
  have "(of_int s0 :: rat) < 10 ^ 15" using s0(2)
    by (metis of_int_less_iff of_int_numeral of_int_power)
  then have Vlt: "V < 10 ^ 15 * u" using u by (simp add: Vs)
  define a b d where "a = \<bar>x - y\<bar>" and "b = \<bar>x - V\<bar>" and "d = \<bar>y - V\<bar>"
  have t: "d \<le> a + b" and yb: "y \<le> V + d" unfolding a_def b_def d_def by linarith+
  have "a * 2 ^ 53 \<le> y" "b * 2 ^ 53 \<le> V" using ey eV unfolding a_def b_def by (simp_all add: field_simps)
  with t yb D Vlt u show False unfolding d_def [symmetric] by simp

qed

lemma two_powi_le_ten_powi23: "(2::rat) powi (- 1022) \<le> 10 powi (- 23)"
proof -
  have "inverse ((2::rat) ^ 1022) \<le> inverse (10 ^ 23)" by (rule le_imp_inverse_le) simp_all
  then show ?thesis by (simp add: power_int_minus)
qed

lemma short_close:
  assumes s0: "0 < s0" "s0 < 10 ^ 15" and p0: "- 22 \<le> p0"
    and x: "toDouble (of_int s0 * 10 powi p0) = Some x"
  shows "\<bar>x / 10 powi p0 - of_int s0\<bar> * 2 ^ 53 \<le> of_int s0"
    and "\<bar>x / 10 powi p0 - of_int s0\<bar> < 1 / 8" and "0 < x"
proof -
  define u :: rat where "u = 10 powi p0"
  have u: "0 < u" unfolding u_def by (rule ten_powi_pos)
  define q where "q = x / u"
  have xq: "x = q * u" using u by (simp add: q_def)
  have s1: "(1::rat) \<le> of_int s0" using s0(1) by simp
  then have Vu: "u \<le> of_int s0 * u" using u by simp
  have n: "2 powi (- 1022) \<le> u"
    unfolding u_def using two_powi_le_ten_powi ten_powi_mono [OF p0] by linarith
  have V0: "0 < of_int s0 * u" using Vu u by linarith
  have "\<bar>x - of_int s0 * u\<bar> \<le> of_int s0 * u / 2 ^ 53"
    using toDouble_rel_error [OF V0 x [folded u_def]] n Vu by linarith
  moreover have "\<bar>x - of_int s0 * u\<bar> = \<bar>q - of_int s0\<bar> * u"
    using u by (simp add: xq abs_mult flip: left_diff_distrib)
  ultimately have "\<bar>q - of_int s0\<bar> * u * 2 ^ 53 \<le> of_int s0 * u" by (simp add: field_simps)
  then have "(\<bar>q - of_int s0\<bar> * 2 ^ 53) * u \<le> of_int s0 * u" by (simp add: mult_ac)
  then have e: "\<bar>q - of_int s0\<bar> * 2 ^ 53 \<le> of_int s0" using u by (simp only: mult_le_cancel_right_pos)
  then show "\<bar>x / 10 powi p0 - of_int s0\<bar> * 2 ^ 53 \<le> of_int s0" by (simp add: q_def u_def)
  have lt: "(of_int s0 :: rat) < 10 ^ 15" using s0(2)
    by (metis of_int_less_iff of_int_numeral of_int_power)
  define d where "d = \<bar>q - of_int s0\<bar>"
  have "d * 2 ^ 53 < 10 ^ 15" using e lt unfolding d_def by linarith
  then have d8: "d < 1 / 8" by simp
  then show "\<bar>x / 10 powi p0 - of_int s0\<bar> < 1 / 8" by (simp add: d_def q_def u_def)
  have "of_int s0 - d \<le> q" unfolding d_def by linarith
  then have "0 < q" using s1 d8 by linarith
  then show "0 < x" using u by (simp add: xq)
qed

lemma no_shorter:
  assumes "of_int c * 10 powi p = (of_int s0 :: rat) * 10 powi p0" and "p0 < p"
  shows "s0 mod 10 = 0"
proof -
  have u: "0 < (10::rat) powi p0" by (rule ten_powi_pos)
  have "(10::rat) powi p = 10 powi (p - p0) * 10 powi p0" by (simp add: power_int_diff)
  also have "(10::rat) powi (p - p0) = of_int (10 ^ nat (p - p0))"
    using assms(2) by (simp add: power_int_def)
  finally have "of_int (c * 10 ^ nat (p - p0)) * 10 powi p0 = (of_int s0 :: rat) * 10 powi p0"
    using assms(1) by simp
  then have "(of_int (c * 10 ^ nat (p - p0)) :: rat) = of_int s0" using u by simp
  then have e: "c * 10 ^ nat (p - p0) = s0" by (simp only: of_int_eq_iff)
  obtain n where "nat (p - p0) = Suc n" using assms(2) by (cases "nat (p - p0)") simp_all
  then have "s0 = 10 * (c * 10 ^ n)" using e by simp
  then show ?thesis by simp
qed

lemma valid_candidate:
  assumes s0: "0 < s0" "s0 < 10 ^ 15" and p0: "- 22 \<le> p0"
    and x: "toDouble (of_int s0 * 10 powi p0) = Some x"
    and p: "p0 \<le> p" and c: "0 \<le> c" and v: "toDouble (of_int c * 10 powi p) = Some x"
  shows "of_int c * 10 powi p = (of_int s0 :: rat) * 10 powi p0"
proof -
  have x0: "0 < x" using short_close(3) [OF s0 p0 x] .
  have "c \<noteq> 0" using v x0 by (auto simp: toDouble_def)
  then have "0 < c" using c by simp
  then show ?thesis using decimal_separation [OF refl s0 p0 x refl p _ v] by simp
qed

lemma nearestValid_above:
  assumes s0: "0 < s0" "s0 < 10 ^ 15" "s0 mod 10 \<noteq> 0" and p0: "- 22 \<le> p0"
    and x: "toDouble (of_int s0 * 10 powi p0) = Some x" and p: "p0 < p"
  shows "nearestValid x p = None"
proof -
  have x0: "0 < x" using short_close(3) [OF s0(1,2) p0 x] .
  then have q: "0 < x / 10 powi p" using ten_powi_pos [of p] by simp
  have lo: "0 \<le> \<lfloor>x / 10 powi p\<rfloor>" and hi: "0 \<le> \<lceil>x / 10 powi p\<rceil>" using q by simp_all
  have le: "p0 \<le> p" using p by simp
  have "toDouble (of_int c * 10 powi p) \<noteq> Some x" if "0 \<le> c" for c
    using valid_candidate [OF s0(1,2) p0 x le that] no_shorter [OF _ p] s0(3) by blast
  then show ?thesis using lo hi by (simp add: nearestValid_def Let_def)
qed

lemma nearestValid_at:
  assumes s0: "0 < s0" "s0 < 10 ^ 15" and p0: "- 22 \<le> p0"
    and x: "toDouble (of_int s0 * 10 powi p0) = Some x"
  shows "nearestValid x p0 = Some s0"
proof -
  define u :: rat where "u = 10 powi p0"
  have u: "0 < u" unfolding u_def by (rule ten_powi_pos)
  define q where "q = x / u"
  define lo hi where "lo = \<lfloor>q\<rfloor>" and "hi = \<lceil>q\<rceil>"
  have x0: "0 < x" using short_close(3) [OF s0 p0 x] .
  then have q0: "0 < q" using u by (simp add: q_def)
  have lo0: "0 \<le> lo" and hi0: "0 \<le> hi" using q0 by (simp_all add: lo_def hi_def)
  have cl: "\<bar>q - of_int s0\<bar> < 1 / 8" using short_close(2) [OF s0 p0 x] by (simp add: q_def u_def)
  have only: "c = s0" if "0 \<le> c" "toDouble (of_int c * u) = Some x" for c
  proof -
    have "of_int c * u = (of_int s0 :: rat) * u"
      using valid_candidate [OF s0 p0 x order_refl that(1)] that(2) by (simp add: u_def)
    then have "(of_int c :: rat) = of_int s0" using u by simp
    then show ?thesis by (simp only: of_int_eq_iff)
  qed
  have some: "toDouble (of_int lo * u) = Some x \<or> toDouble (of_int hi * u) = Some x"
  proof (cases "of_int s0 \<le> q")
    case True
    have "q < of_int s0 + 1" using cl by linarith
    with True have "lo = s0" unfolding lo_def by (intro floor_unique)
    then show ?thesis using x by (simp add: u_def)
  next
    case False
    have "of_int s0 - 1 < q" using cl by linarith
    with False have "hi = s0" unfolding hi_def by (intro ceiling_unique) simp_all
    then show ?thesis using x by (simp add: u_def)
  qed
  have l: "toDouble (of_int lo * u) = Some x \<Longrightarrow> lo = s0" using only [OF lo0] .
  have h: "toDouble (of_int hi * u) = Some x \<Longrightarrow> hi = s0" using only [OF hi0] .
  show ?thesis
    unfolding nearestValid_def Let_def u_def [symmetric] q_def [symmetric]
      lo_def [symmetric] hi_def [symmetric]
    using some l h by auto
qed

lemma shortestDecimal_run:
  assumes "\<And>q. p0 < q \<Longrightarrow> q \<le> p \<Longrightarrow> nearestValid x q = None"
    and "nearestValid x p0 = Some s" and "p0 \<le> p" and "p - p0 \<le> int fuel"
  shows "shortestDecimal fuel x p = (s, p0)"
  using assms
proof (induction fuel arbitrary: p)
  case 0
  then have "p = p0" by simp
  then show ?case using 0 by simp
next
  case (Suc fuel)
  show ?case
  proof (cases "p = p0")
    case True
    then show ?thesis using Suc.prems(2) by simp
  next
    case False
    then have lt: "p0 < p" using Suc.prems(3) by simp
    have none: "nearestValid x p = None" using Suc.prems(1) [OF lt order_refl] .
    have "shortestDecimal fuel x (p - 1) = (s, p0)"
      using Suc.prems lt by (intro Suc.IH) simp_all
    then show ?thesis using none by simp
  qed
qed

lemma ten_powi_less_cancel: "(10::rat) powi a < 10 powi b \<Longrightarrow> a < b"
  using ten_powi_mono [of b a] by (cases "a < b") simp_all

lemma digits_bounds:
  assumes "0 < s0"
  shows "(10::rat) ^ (length (digitsOf (nat s0)) - 1) \<le> of_int s0"
    and "(of_int s0 :: rat) + 1 \<le> 10 ^ length (digitsOf (nat s0))"
proof -
  define k where "k = length (digitsOf (nat s0))"
  have "10 ^ (k - 1) \<le> nat s0" unfolding k_def using assms by (intro digitsOf_lower) simp
  then have "int (10 ^ (k - 1)) \<le> s0" using assms by linarith
  then have "(of_int (10 ^ (k - 1)) :: rat) \<le> of_int s0" by (simp only: of_int_le_iff of_nat_power) simp
  then show "(10::rat) ^ (k - 1) \<le> of_int s0" by simp
  have "nat s0 < 10 ^ k" unfolding k_def by (rule digitsOf_upper)
  then have "s0 + 1 \<le> 10 ^ k" using assms by (simp add: nat_less_iff)
  then have "(of_int (s0 + 1) :: rat) \<le> of_int (10 ^ k)" by (simp only: of_int_le_iff)
  then show "(of_int s0 :: rat) + 1 \<le> 10 ^ k" by simp
qed

lemma short_exponent:
  assumes s0: "0 < s0" "s0 < 10 ^ 15" "s0 mod 10 \<noteq> 0" and p0: "- 22 \<le> p0"
    and x: "toDouble (of_int s0 * 10 powi p0) = Some x"
  shows "decimalExponent x = p0 + int (length (digitsOf (nat s0)))
     \<or> (s0 = 1 \<and> decimalExponent x = p0 \<and> x < 10 powi p0)"
proof -
  define u :: rat where "u = 10 powi p0"
  have u: "0 < u" unfolding u_def by (rule ten_powi_pos)
  define q where "q = x / u"
  have xq: "x = q * u" using u by (simp add: q_def)
  define k where "k = length (digitsOf (nat s0))"
  have k0: "0 < k" unfolding k_def by (rule length_digitsOf_pos)
  have cl: "\<bar>q - of_int s0\<bar> < 1 / 8" using short_close(2) [OF s0(1,2) p0 x] by (simp add: q_def u_def)
  have lo: "(10::rat) ^ (k - 1) \<le> of_int s0" and hi: "(of_int s0 :: rat) + 1 \<le> 10 ^ k"
    using digits_bounds [OF s0(1)] by (simp_all add: k_def)
  have pk: "(10::rat) powi (p0 + int k) = 10 ^ k * u"
    by (simp add: power_int_add u_def mult.commute)
  have pk1: "(10::rat) powi (p0 + int k - 1) = 10 ^ (k - 1) * u"
  proof -
    have e: "p0 + int k - 1 = p0 + int (k - 1)" using k0 by simp
    have "(10::rat) powi (p0 + int (k - 1)) = 10 ^ (k - 1) * u"
      by (simp add: power_int_add u_def mult.commute)
    then show ?thesis by (simp only: e)
  qed
  have "q < 10 ^ k" using cl hi by linarith
  then have up: "x < 10 powi (p0 + int k)" using u by (simp add: xq pk)
  show ?thesis
  proof (cases "(10::rat) ^ (k - 1) \<le> q")
    case True
    then have "10 powi (p0 + int k - 1) \<le> x" using u by (simp add: xq pk1)
    then have "decimalExponent x = p0 + int k" using up by (rule decimalExponent_unique)
    then show ?thesis by (simp add: k_def)
  next
    case False
    have "(of_int s0 :: rat) < 10 ^ (k - 1) + 1" using False cl by linarith
    then have "(of_int s0 :: rat) < of_int (10 ^ (k - 1) + 1)" by simp
    then have "s0 < 10 ^ (k - 1) + 1" by (simp only: of_int_less_iff)
    moreover have "(of_int (10 ^ (k - 1)) :: rat) \<le> of_int s0" using lo by simp
    then have "10 ^ (k - 1) \<le> s0" by (simp only: of_int_le_iff)
    ultimately have e: "s0 = 10 ^ (k - 1)" by simp
    have k1: "k - 1 = 0"
    proof (cases "k - 1")
      case (Suc n)
      then have "s0 mod 10 = 0" using e by simp
      then show ?thesis using s0(3) by simp
    qed simp
    then have s1: "s0 = 1" using e by simp
    have q1: "q < 1" using False k1 by simp
    have "\<bar>q - 1\<bar> < 1 / 8" using cl s1 by simp
    then have "1 / 10 \<le> q" by linarith
    then have "u / 10 \<le> x" using u by (simp add: xq)
    moreover have "(10::rat) powi (p0 - 1) = u / 10" by (simp add: power_int_diff u_def)
    ultimately have "10 powi (p0 - 1) \<le> x" by simp
    moreover have xu: "x < 10 powi p0" using q1 u by (simp add: xq u_def)
    ultimately have "decimalExponent x = p0" by (rule decimalExponent_unique)
    then show ?thesis using s1 xu by simp
  qed
qed

lemma nearestValid_below_one:
  assumes p0: "- 22 \<le> p0" and x: "toDouble (10 powi p0) = Some x" and lt: "x < 10 powi p0"
  shows "nearestValid x (p0 - 1) = Some 10"
proof -
  define u :: rat where "u = 10 powi p0"
  have u: "0 < u" unfolding u_def by (rule ten_powi_pos)
  define q where "q = x / u"
  have xq: "x = q * u" using u by (simp add: q_def)
  have x1: "toDouble (of_int 1 * 10 powi p0) = Some x" using x by simp
  have cl: "\<bar>q - 1\<bar> * 2 ^ 53 \<le> 1" using short_close(1) [OF _ _ p0 x1] by (simp add: q_def u_def)
  have q1: "q < 1" using lt u by (simp add: xq u_def)
  have p1: "(10::rat) powi (p0 - 1) = u / 10" by (simp add: power_int_diff u_def)
  have d: "x / 10 powi (p0 - 1) = 10 * q" using u by (simp add: p1 xq)
  define e where "e = \<bar>q - 1\<bar>"
  have "e * 2 ^ 53 \<le> 1" using cl by (simp add: e_def)
  then have "e < 1 / 100" by simp
  then have q99: "99 / 100 < q" unfolding e_def by linarith
  then have a: "of_int 9 < x / 10 powi (p0 - 1)" by (simp add: d)
  have b: "x / 10 powi (p0 - 1) < of_int 9 + 1" using q1 by (simp add: d)
  have c: "toDouble (of_int 9 * 10 powi (p0 - 1)) \<noteq> Some x"
  proof
    assume v: "toDouble (of_int 9 * 10 powi (p0 - 1)) = Some x"
    define y where "y = 9 * u / 10"
    have y0: "0 < y" using u by (simp add: y_def)
    have "- 23 \<le> p0 - 1" using p0 by simp
    then have "2 powi (- 1022) \<le> (10::rat) powi (p0 - 1)"
      using two_powi_le_ten_powi23 ten_powi_mono [of "- 23" "p0 - 1"] by linarith
    then have n: "2 powi (- 1022) \<le> y" using u by (simp add: y_def p1)
    have vy: "toDouble y = Some x" using v by (simp add: y_def p1)
    have "\<bar>x - y\<bar> \<le> y / 2 ^ 53" using toDouble_rel_error [OF y0 vy n] .
    then have "\<bar>q * u - 9 * u / 10\<bar> * 2 ^ 53 \<le> 9 * u / 10" by (simp add: xq y_def field_simps)
    moreover have "q * u - 9 * u / 10 = (q - 9 / 10) * u" by (simp add: left_diff_distrib)
    then have "\<bar>q * u - 9 * u / 10\<bar> = \<bar>q - 9 / 10\<bar> * u"
      using u by (simp only: abs_mult)
    ultimately have "(\<bar>q - 9 / 10\<bar> * 2 ^ 53) * u \<le> (9 / 10) * u" by (simp add: mult_ac)
    then have f: "\<bar>q - 9 / 10\<bar> * 2 ^ 53 \<le> 9 / 10" using u by (simp only: mult_le_cancel_right_pos)
    define g where "g = \<bar>q - 9 / 10\<bar>"
    have "g * 2 ^ 53 \<le> 9 / 10" using f by (simp add: g_def)
    then have "g < 1 / 100" by simp
    then have "q < 91 / 100" unfolding g_def by linarith
    then show False using q99 by linarith
  qed
  have e: "toDouble (of_int (9 + 1) * 10 powi (p0 - 1)) = Some x" using x u by (simp add: p1 u_def)
  show ?thesis using nearestValid_hi [OF a b c e] by simp
qed

lemma stripZeros_10: "stripZeros (10, p - 1) = (1, p)"
  by (simp add: stripZeros.simps [of 10] stripZeros.simps [of 1])

lemma short_search:
  assumes s0: "0 < s0" "s0 < 10 ^ 15" "s0 mod 10 \<noteq> 0" and p0: "- 22 \<le> p0"
    and x: "toDouble (of_int s0 * 10 powi p0) = Some x"
  shows "stripZeros (shortestDecimal 16 x (decimalExponent x - 1)) = (s0, p0)"
proof -
  define k where "k = length (digitsOf (nat s0))"
  have k0: "0 < k" unfolding k_def by (rule length_digitsOf_pos)
  from short_exponent [OF s0 p0 x] consider
    (a) "decimalExponent x = p0 + int k" | (b) "s0 = 1" "decimalExponent x = p0" "x < 10 powi p0"
    by (auto simp: k_def)
  then show ?thesis
  proof cases
    case a
    have "(10::rat) ^ (k - 1) \<le> of_int s0" using digits_bounds(1) [OF s0(1)] by (simp add: k_def)
    moreover have "(of_int s0 :: rat) < 10 ^ 15" using s0(2)
      by (metis of_int_less_iff of_int_numeral of_int_power)
    ultimately have "(10::rat) ^ (k - 1) < 10 ^ 15" by linarith
    then have "k - 1 < 15" by (simp only: power_strict_increasing_iff)
    then have f: "(p0 + int k - 1) - p0 \<le> int 16" using k0 by simp
    have "shortestDecimal 16 x (p0 + int k - 1) = (s0, p0)"
    proof (rule shortestDecimal_run [OF _ _ _ f])
      show "nearestValid x q = None" if "p0 < q" for q using nearestValid_above [OF s0 p0 x that] .
      show "nearestValid x p0 = Some s0" using nearestValid_at [OF s0(1,2) p0 x] .
      show "p0 \<le> p0 + int k - 1" using k0 by simp
    qed
    then show ?thesis using a stripZeros_id [OF s0(3)] by simp
  next
    case b
    have "toDouble (10 powi p0) = Some x" using x b(1) by simp
    then have "nearestValid x (p0 - 1) = Some 10" using b(3) by (intro nearestValid_below_one p0)
    then have "shortestDecimal 16 x (p0 - 1) = (10, p0 - 1)" by (rule shortestDecimal_found)
    then show ?thesis using b by (simp add: stripZeros_10)
  qed
qed

lemma positiveToString_short:
  assumes s0: "0 < s0" "s0 < 10 ^ 15" "s0 mod 10 \<noteq> 0" and p0: "- 22 \<le> p0"
    and x: "toDouble (of_int s0 * 10 powi p0) = Some x"
    and n: "- 6 < p0 + int (length (digitsOf (nat s0)))" "p0 + int (length (digitsOf (nat s0))) \<le> 21"
  shows "positiveToString x = plainDecimal (digitsOf (nat s0)) (p0 + int (length (digitsOf (nat s0))))"
  using n by (simp add: positiveToString_def short_search [OF s0 p0 x] plainDecimal_def Let_def)

lemma digit_cases:
  assumes "d < 10"
  obtains "d = 0" | "d = 1" | "d = 2" | "d = 3" | "d = 4" | "d = 5" | "d = 6" | "d = 7" | "d = 8"
    | "d = (9::nat)"
proof -
  have "d = 0 \<or> d = 1 \<or> d = 2 \<or> d = 3 \<or> d = 4 \<or> d = 5 \<or> d = 6 \<or> d = 7 \<or> d = 8 \<or> d = 9"
    using assms by presburger
  then show thesis using that by blast
qed

lemma digitChar_Suc_0: "digitChar (Suc 0) = CHR ''1''"
  by (simp add: digitChar_def)

lemma isDigit_digitChar: "d < 10 \<Longrightarrow> isDigit (digitChar d)"
  by (cases d rule: digit_cases) (simp_all add: isDigit_def digitChar_Suc_0)

lemma digitValue_digitChar: "d < 10 \<Longrightarrow> digitValue (digitChar d) = d"
  by (cases d rule: digit_cases) (simp_all add: digitValue_def digitChar_Suc_0)

lemma digitChar_no_space: "d < 10 \<Longrightarrow> \<not> isWhiteSpace (digitChar d)"
  by (cases d rule: digit_cases) (simp_all add: isWhiteSpace_def digitChar_Suc_0)

lemma digitChar_no_sign:
  assumes "d < 10"
  shows "digitChar d \<noteq> CHR ''-''" and "digitChar d \<noteq> CHR ''+''" and "digitChar d \<noteq> CHR ''I''"
  using assms by (cases d rule: digit_cases; simp add: digitChar_Suc_0)+

lemmas digitChar_props = isDigit_digitChar digitValue_digitChar digitChar_no_space digitChar_no_sign

lemma digitsOf_digits: "list_all isDigit (digitsOf n)"
proof (induction n rule: digitsOf.induct)
  case (1 n)
  show ?case
  proof (cases "n < 10")
    case True
    then show ?thesis by (subst digitsOf.simps) (simp add: digitChar_props)
  next
    case False
    then show ?thesis using 1 by (subst digitsOf.simps) (simp add: digitChar_props)
  qed
qed

lemma digitsValue_Nil [simp]: "digitsValue [] = 0"
  by (simp add: digitsValue_def)

lemma digitsValue_snoc: "digitsValue (ds @ [c]) = 10 * digitsValue ds + digitValue c"
  by (simp add: digitsValue_def)

lemma digitsValue_append:
  "digitsValue (ds @ es) = digitsValue ds * 10 ^ length es + digitsValue es"
proof (induction es rule: rev_induct)
  case Nil
  show ?case by simp
next
  case (snoc c es)
  have "digitsValue (ds @ es @ [c]) = 10 * digitsValue (ds @ es) + digitValue c"
    using digitsValue_snoc [of "ds @ es" c] by simp
  then show ?case by (simp add: snoc digitsValue_snoc algebra_simps)
qed

lemma digitsValue_zeros [simp]: "digitsValue (replicate m CHR ''0'') = 0"
proof (induction m)
  case (Suc m)
  have "replicate (Suc m) CHR ''0'' = replicate m CHR ''0'' @ [CHR ''0'']"
    by (simp add: replicate_append_same)
  then show ?case using Suc by (simp only: digitsValue_snoc) (simp add: digitValue_def)
qed simp

lemma digitsValue_digitsOf: "digitsValue (digitsOf n) = n"
proof (induction n rule: digitsOf.induct)
  case (1 n)
  show ?case
  proof (cases "n < 10")
    case True
    have "digitsValue [digitChar n] = n"
      using digitsValue_snoc [of "[]" "digitChar n"] True by (simp add: digitChar_props)
    then show ?thesis using True by (subst digitsOf.simps) simp
  next
    case False
    then have "digitsValue (digitsOf (n div 10)) = n div 10" using 1 by simp
    then have "digitsValue (digitsOf (n div 10) @ [digitChar (n mod 10)]) = 10 * (n div 10) + n mod 10"
      by (simp add: digitsValue_snoc digitChar_props)
    then show ?thesis using False by (subst digitsOf.simps) simp
  qed
qed

lemma zeros_digits: "list_all isDigit (replicate m CHR ''0'')"
  by (simp add: list_all_iff isDigit_def)

lemma parseFloat_integer:
  assumes "ip \<noteq> []" and "list_all isDigit ip" and "\<not> isWhiteSpace (hd ip)"
    and "hd ip \<noteq> CHR ''-''" and "hd ip \<noteq> CHR ''+''" and "hd ip \<noteq> CHR ''I''"
  shows "parseFloat ((if neg then ''-'' else []) @ ip) = mkNumber neg (of_nat (digitsValue ip))"
proof -
  obtain c r where ip: "ip = c # r" using assms(1) by (cases ip) simp_all
  define t where "t = (if neg then ''-'' else []) @ ip"
  have w: "dropWhile isWhiteSpace t = t"
    using assms(3) by (simp add: t_def ip isWhiteSpace_def)
  have s: "splitSign t = (neg, ip)" using assms(4,5) by (simp add: t_def ip splitSign_def)
  have i: "\<not> prefix ''Infinity'' ip" using assms(6) by (simp add: ip)
  have d: "takeWhile isDigit ip = ip" "dropWhile isDigit ip = []"
    using assms(2) by (simp_all add: list_all_iff)
  show ?thesis
    unfolding parseFloat_def t_def [symmetric] w s
    using i assms(1) by (simp add: d exponentPart_def)
qed

lemma parseFloat_fraction:
  assumes "ip \<noteq> []" and "list_all isDigit ip" and "\<not> isWhiteSpace (hd ip)"
    and "hd ip \<noteq> CHR ''-''" and "hd ip \<noteq> CHR ''+''" and "hd ip \<noteq> CHR ''I''"
    and "list_all isDigit fp"
  shows "parseFloat ((if neg then ''-'' else []) @ ip @ ''.'' @ fp)
    = mkNumber neg (of_nat (digitsValue (ip @ fp)) * 10 powi (- int (length fp)))"
proof -
  obtain c r where ip: "ip = c # r" using assms(1) by (cases ip) simp_all
  define u where "u = ip @ ''.'' @ fp"
  define t where "t = (if neg then ''-'' else []) @ u"
  have uc: "u = c # r @ ''.'' @ fp" by (simp add: u_def ip)
  have w: "dropWhile isWhiteSpace t = t"
    using assms(3) by (simp add: t_def uc ip isWhiteSpace_def)
  have s: "splitSign t = (neg, u)" using assms(4,5) by (simp add: t_def uc ip splitSign_def)
  have i: "\<not> prefix ''Infinity'' u" using assms(6) by (simp add: uc ip)
  have nd: "\<not> isDigit CHR ''.''" by (simp add: isDigit_def)
  have a: "takeWhile isDigit u = ip"
    unfolding u_def using assms(2) nd by (simp add: list_all_iff takeWhile_append2)
  have b: "dropWhile isDigit u = ''.'' @ fp"
    unfolding u_def using assms(2) nd by (simp add: list_all_iff dropWhile_append2)
  have f: "takeWhile isDigit fp = fp" "dropWhile isDigit fp = []"
    using assms(7) by (simp_all add: list_all_iff)
  show ?thesis
    unfolding parseFloat_def u_def [symmetric] t_def [symmetric] w s
    using i assms(1) by (simp add: a b f exponentPart_def)
qed

lemma hd_digitsOf: "\<exists>d < 10. hd (digitsOf n @ r) = digitChar d"
proof (induction n arbitrary: r rule: digitsOf.induct)
  case (1 n)
  show ?case
  proof (cases "n < 10")
    case True
    then show ?thesis by (subst digitsOf.simps) auto
  next
    case False
    then have "\<exists>d<10. hd (digitsOf (n div 10) @ ([digitChar (n mod 10)] @ r)) = digitChar d"
      using 1 by blast
    then show ?thesis using False by (subst digitsOf.simps) simp
  qed
qed

lemma digitsOf_nonempty: "digitsOf n \<noteq> []"
  using length_digitsOf_pos [of n] by auto

lemma parseFloat_plainDecimal:
  assumes s: "0 < s" and n: "n = p + int (length (digitsOf (nat s)))"
  shows "parseFloat ((if neg then ''-'' else []) @ plainDecimal (digitsOf (nat s)) n)
    = mkNumber neg (of_int s * 10 powi p)"
proof -
  define ds where "ds = digitsOf (nat s)"
  define k where "k = length ds"
  have dd: "list_all isDigit ds" unfolding ds_def by (rule digitsOf_digits)
  have ne: "ds \<noteq> []" unfolding ds_def by (rule digitsOf_nonempty)
  have k0: "0 < k" using ne by (simp add: k_def)
  have v: "digitsValue ds = nat s" unfolding ds_def by (rule digitsValue_digitsOf)
  have vs: "(of_nat (nat s) :: rat) = of_int s" using s by simp
  have nk: "n = p + int k" using n by (simp add: k_def ds_def)
  consider (a) "int k \<le> n" | (b) "0 < n" "n < int k" | (c) "n \<le> 0" by linarith
  then show ?thesis
  proof cases
    case a
    define z where "z = nat (n - int k)"
    have pz: "p = int z" using a nk by (simp add: z_def)
    have str: "plainDecimal ds n = ds @ replicate z CHR ''0''"
      using a by (simp add: plainDecimal_def k_def z_def)
    obtain d where d: "d < 10" "hd (ds @ replicate z CHR ''0'') = digitChar d"
      using hd_digitsOf [of "nat s" "replicate z CHR ''0''"] by (auto simp: ds_def)
    have "parseFloat ((if neg then ''-'' else []) @ ds @ replicate z CHR ''0'')
        = mkNumber neg (of_nat (digitsValue (ds @ replicate z CHR ''0'')))"
      using ne dd zeros_digits [of z] d by (intro parseFloat_integer) (simp_all add: digitChar_props)
    also have "digitsValue (ds @ replicate z CHR ''0'') = nat s * 10 ^ z"
      by (simp add: digitsValue_append v)
    also have "(of_nat (nat s * 10 ^ z) :: rat) = of_int s * 10 powi p"
      using vs by (simp add: pz)
    finally show ?thesis by (simp add: str flip: ds_def)
  next
    case b
    define m where "m = nat n"
    have m: "0 < m" "m < k" using b by (simp_all add: m_def)
    have str: "plainDecimal ds n = take m ds @ ''.'' @ drop m ds"
      using b by (simp add: plainDecimal_def k_def m_def)
    have tne: "take m ds \<noteq> []" using m ne by simp
    have hdt: "hd (take m ds) = hd ds" using m by (simp add: hd_take)
    obtain d where d: "d < 10" "hd ds = digitChar d"
      using hd_digitsOf [of "nat s" "[]"] by (auto simp: ds_def)
    have dt: "list_all isDigit (take m ds)" "list_all isDigit (drop m ds)"
      using dd by (auto simp: list_all_iff dest: in_set_takeD in_set_dropD)
    have "parseFloat ((if neg then ''-'' else []) @ take m ds @ ''.'' @ drop m ds)
        = mkNumber neg (of_nat (digitsValue (take m ds @ drop m ds))
            * 10 powi (- int (length (drop m ds))))"
      using tne dt d by (intro parseFloat_fraction) (simp_all add: hdt digitChar_props)
    moreover have "- int (length (drop m ds)) = p" using m b nk by (simp add: k_def m_def)
    ultimately show ?thesis by (simp add: str v vs flip: ds_def)
  next
    case c
    define z where "z = nat (- n)"
    have "\<not> int (length ds) \<le> n" using c k0 unfolding k_def by linarith
    then have str: "plainDecimal ds n = ''0'' @ ''.'' @ (replicate z CHR ''0'' @ ds)"
      using c by (simp add: plainDecimal_def Let_def z_def)
    have fd: "list_all isDigit (replicate z CHR ''0'' @ ds)" using dd zeros_digits [of z] by simp
    have "parseFloat ((if neg then ''-'' else []) @ ''0'' @ ''.'' @ (replicate z CHR ''0'' @ ds))
        = mkNumber neg (of_nat (digitsValue (''0'' @ (replicate z CHR ''0'' @ ds)))
            * 10 powi (- int (length (replicate z CHR ''0'' @ ds))))"
      using fd by (intro parseFloat_fraction) (simp_all add: isDigit_def isWhiteSpace_def)
    moreover have "digitsValue (''0'' @ (replicate z CHR ''0'' @ ds)) = nat s"
    proof -
      have "digitsValue ''0'' = 0" using digitsValue_snoc [of "[]" "CHR ''0''"] by (simp add: digitValue_def)
      then show ?thesis by (simp only: digitsValue_append digitsValue_zeros v)
    qed
    moreover have "- int (length (replicate z CHR ''0'' @ ds)) = p" using c nk by (simp add: z_def k_def)
    ultimately show ?thesis by (simp only: str vs flip: ds_def)
  qed
qed

lemma maxDouble_ge: "(10::rat) ^ 15 + 1 \<le> maxDouble"
  by (simp add: maxDouble_def)

lemma scale_round:
  assumes N: "0 < N" "N \<le> 10 ^ 15" and j: "j \<le> 22"
    and x: "toDouble (of_nat N / 10 ^ j) = Some x"
  shows "Math_round (times_number (Finite neg x) (Finite False (10 ^ j))) = Finite neg (of_nat N)"
proof -
  define u :: rat where "u = 10 ^ j"
  have u: "0 < u" by (simp add: u_def)
  define V :: rat where "V = of_nat N / u"
  have N1: "(1::rat) \<le> of_nat N" using N(1) by simp
  have N15: "(of_nat N :: rat) \<le> 10 ^ 15" using N(2) by (metis of_nat_le_iff of_nat_numeral of_nat_power)
  have "(10::rat) powi (- int j) \<le> V"
    using N1 u by (simp add: V_def u_def power_int_minus field_simps)
  moreover have "(10::rat) powi (- 22) \<le> 10 powi (- int j)" using j by (intro ten_powi_mono) simp
  ultimately have n: "2 powi (- 1022) \<le> V" using two_powi_le_ten_powi by linarith
  have V0: "0 < V" using N1 u by (simp add: V_def)
  have "\<bar>x - V\<bar> \<le> V / 2 ^ 53" using x n V0 unfolding V_def u_def by (intro toDouble_rel_error)
  then have "\<bar>x - V\<bar> * u \<le> V * u / 2 ^ 53" using u by (simp add: field_simps)
  moreover have "\<bar>x - V\<bar> * u = \<bar>x * u - of_nat N\<bar>"
  proof -
    have "x * u - of_nat N = (x - V) * u" using u by (simp add: V_def left_diff_distrib)
    then show ?thesis using u by (simp only: abs_mult)
  qed
  moreover have "V * u = of_nat N" using u by (simp add: V_def)
  ultimately have e1: "\<bar>x * u - of_nat N\<bar> \<le> of_nat N / 2 ^ 53" by simp
  define z where "z = x * u"
  define a where "a = \<bar>z - of_nat N\<bar>"
  have "a * 2 ^ 53 \<le> 10 ^ 15" using e1 N15 by (simp add: a_def z_def field_simps)
  then have a8: "a < 1 / 8" by simp
  have zl: "of_nat N - 1 / 8 < z" and zu: "z < of_nat N + 1 / 8" using a8 unfolding a_def by linarith+
  have z0: "0 < z" using zl N1 by linarith
  have zm: "z \<le> maxDouble" using zu N15 maxDouble_ge by linarith
  obtain y where y: "toDouble z = Some y" using toDouble_finite [OF z0 zm] by blast
  have "(2::rat) powi (- 1022) \<le> 10 powi (- 22)" by (rule two_powi_le_ten_powi)
  also have "\<dots> \<le> 10 powi (- 1)" by (intro ten_powi_mono) simp
  finally have "(2::rat) powi (- 1022) \<le> 1 / 10" by simp
  then have nz: "2 powi (- 1022) \<le> z" using zl N1 by linarith
  define b where "b = \<bar>y - z\<bar>"
  have "b \<le> z / 2 ^ 53" using toDouble_rel_error [OF z0 y nz] by (simp add: b_def)
  then have "b * 2 ^ 53 \<le> 10 ^ 15 + 1" using zu N15 by (simp add: field_simps)
  then have b8: "b < 1 / 8" by simp
  have yl: "of_nat N - 1 / 4 < y" and yu: "y < of_nat N + 1 / 4"
    using zl zu b8 unfolding b_def by linarith+
  have "of_int (int N) \<le> y + 1 / 2" "y + 1 / 2 < of_int (int N) + 1"
    using yl yu by simp_all
  then have f1: "\<lfloor>y + 1 / 2\<rfloor> = int N" by (rule floor_unique)
  have "of_int (- int N) \<le> - y + 1 / 2" "- y + 1 / 2 < of_int (- int N) + 1"
    using yl yu by simp_all
  then have f2: "\<lfloor>- y + 1 / 2\<rfloor> = - int N" by (rule floor_unique)
  have "Math_round (Finite neg y) = Finite neg (of_nat N)" using f1 f2 by (cases neg) simp_all
  moreover have "times_number (Finite neg x) (Finite False (10 ^ j)) = Finite neg y"
    using y by (simp add: mkNumber_def z_def u_def)
  ultimately show ?thesis by simp
qed

lemma decimalString_unfold:
  assumes "0 < N"
  obtains s0 p0 where "stripZeros (int N, - int j) = (s0, p0)" and "0 < s0" and "s0 mod 10 \<noteq> 0"
    and "- int j \<le> p0" and "s0 \<le> int N"
    and "(of_int s0 :: rat) * 10 powi p0 = of_nat N / 10 ^ j"
    and "decimalString N j = plainDecimal (digitsOf (nat s0)) (p0 + int (length (digitsOf (nat s0))))"
proof -
  obtain s0 p0 where e: "stripZeros (int N, - int j) = (s0, p0)" by (cases "stripZeros (int N, - int j)")
  have N: "0 < int N" using assms by simp
  note p = stripZeros_props [OF N e]
  have "(of_int s0 :: rat) * 10 powi p0 = of_int (int N) * 10 powi (- int j)" using p by simp
  also have "\<dots> = of_nat N / 10 ^ j" by (simp add: power_int_minus field_simps)
  finally have v: "(of_int s0 :: rat) * 10 powi p0 = of_nat N / 10 ^ j" .
  have dd: "decimalString N j = plainDecimal (digitsOf (nat s0)) (p0 + int (length (digitsOf (nat s0))))"
    using assms by (simp add: decimalString_def e Let_def)
  show thesis by (rule that [OF e _ _ _ _ v dd]) (use p in simp_all)
qed

lemma parseFloat_decimalString:
  "parseFloat ((if neg then ''-'' else []) @ decimalString N j) = mkNumber neg (of_nat N / 10 ^ j)"
proof (cases "N = 0")
  case True
  have "parseFloat ((if neg then ''-'' else []) @ ''0'') = mkNumber neg (of_nat (digitsValue ''0''))"
    by (rule parseFloat_integer) (simp_all add: isDigit_def isWhiteSpace_def)
  moreover have "digitsValue ''0'' = 0" using digitsValue_snoc [of "[]" "CHR ''0''"] by (simp add: digitValue_def)
  ultimately show ?thesis using True by (simp add: decimalString_def)
next
  case False
  then have N: "0 < N" by simp
  obtain s0 p0 where s: "0 < s0"
    and v: "(of_int s0 :: rat) * 10 powi p0 = of_nat N / 10 ^ j"
    and d: "decimalString N j = plainDecimal (digitsOf (nat s0)) (p0 + int (length (digitsOf (nat s0))))"
    using decimalString_unfold [OF N, of j] by metis
  show ?thesis using parseFloat_plainDecimal [OF s refl, of neg p0] by (simp only: d v)
qed

lemma small_scale:
  assumes "(N::nat) \<le> 10 ^ 15" and "10 ^ j \<le> N * 10 ^ 6"
  shows "j \<le> (22::nat)"
proof -
  have "N * 10 ^ 6 \<le> 10 ^ 15 * (10 ^ 6 :: nat)" using assms(1) by (rule mult_right_mono) simp
  then have "(10::nat) ^ j \<le> 10 ^ 21" using assms(2) by simp
  then have "j \<le> 21" by (simp only: power_increasing_iff) 
  then show ?thesis by simp
qed

lemma toString_decimal:
  assumes N: "N \<le> 10 ^ 15" and small: "N = 0 \<or> 10 ^ j \<le> N * 10 ^ 6"
    and x: "toDouble (of_nat N / 10 ^ j) = Some x"
  shows "toString (Finite neg x) = (if neg \<and> 0 < N then ''-'' else []) @ decimalString N j"
proof (cases "N = 0")
  case True
  then have "x = 0" using x by (simp add: toDouble_def)
  then show ?thesis using True by (simp add: decimalString_def)
next
  case False
  then have N0: "0 < N" by simp
  have j: "j \<le> 22" using small False N by (intro small_scale [of N j]) simp_all
  obtain s0 p0 where s: "0 < s0" "s0 mod 10 \<noteq> 0" and p: "- int j \<le> p0" and le: "s0 \<le> int N"
    and v: "(of_int s0 :: rat) * 10 powi p0 = of_nat N / 10 ^ j"
    and d: "decimalString N j = plainDecimal (digitsOf (nat s0)) (p0 + int (length (digitsOf (nat s0))))"
    using decimalString_unfold [OF N0, of j] by metis
  define k where "k = length (digitsOf (nat s0))"
  have k0: "0 < k" unfolding k_def by (rule length_digitsOf_pos)
  define u :: rat where "u = 10 powi p0"
  have u: "0 < u" unfolding u_def by (rule ten_powi_pos)
  define V :: rat where "V = of_int s0 * u"
  have VN: "V = of_nat N / 10 ^ j" using v by (simp add: V_def u_def)
  have "int N \<le> int (10 ^ 15)" using N by (simp only: of_nat_le_iff)
  then have "s0 \<le> 10 ^ 15" using le by simp
  moreover have "s0 \<noteq> 10 ^ 15" using s(2) by auto
  ultimately have s15: "s0 < 10 ^ 15" by simp
  have p22: "- 22 \<le> p0" using p j by simp
  have xs: "toDouble (of_int s0 * 10 powi p0) = Some x" using x by (simp only: v)
  have lo: "(10::rat) ^ (k - 1) \<le> of_int s0" and hi: "(of_int s0 :: rat) + 1 \<le> 10 ^ k"
    using digits_bounds [OF s(1)] by (simp_all add: k_def)
  have pk: "(10::rat) powi (p0 + int k) = 10 ^ k * u"
    by (simp add: power_int_add u_def mult.commute)
  have e1: "p0 + int k - 1 = p0 + int (k - 1)" using k0 by simp
  have "(10::rat) powi (p0 + int (k - 1)) = 10 ^ (k - 1) * u"
    by (simp add: power_int_add u_def mult.commute)
  then have pk1: "(10::rat) powi (p0 + int k - 1) = 10 ^ (k - 1) * u" by (simp only: e1)
  have "(of_int s0 :: rat) < 10 ^ k" using hi by linarith
  then have "V < 10 ^ k * u" unfolding V_def using u by (rule mult_strict_right_mono)
  then have Vu: "V < 10 powi (p0 + int k)" by (simp only: pk)
  have "10 ^ (k - 1) * u \<le> V" unfolding V_def using lo u by (intro mult_right_mono) simp_all
  then have Vl: "10 powi (p0 + int k - 1) \<le> V" by (simp only: pk1)
  have "10 ^ j \<le> N * 10 ^ 6" using small False by simp
  then have "(of_nat (10 ^ j) :: rat) \<le> of_nat (N * 10 ^ 6)" by (simp only: of_nat_le_iff)
  then have "(10::rat) ^ j \<le> of_nat N * 10 ^ 6" by simp
  then have "1 / 10 ^ 6 \<le> (of_nat N :: rat) / 10 ^ j" by (simp add: field_simps)
  then have "(10::rat) powi (- 6) \<le> V" by (simp add: VN power_int_minus inverse_eq_divide)
  then have "(10::rat) powi (- 6) < 10 powi (p0 + int k)" using Vu by linarith
  then have n6: "- 6 < p0 + int k" by (rule ten_powi_less_cancel)
  have N15: "(of_nat N :: rat) \<le> 10 ^ 15" using N by (metis of_nat_le_iff of_nat_numeral of_nat_power)
  have "(of_nat N :: rat) / 10 ^ j \<le> of_nat N / 1" by (rule divide_left_mono) simp_all
  then have "V \<le> 10 ^ 15" using N15 by (simp add: VN)
  then have "V < 10 powi 16" by simp
  then have "(10::rat) powi (p0 + int k - 1) < 10 powi 16" using Vl by linarith
  then have "p0 + int k - 1 < 16" by (rule ten_powi_less_cancel)
  then have n21: "p0 + int k \<le> 21" by simp
  have x0: "0 < x" using short_close(3) [OF s(1) s15 p22 xs] .
  have "positiveToString x = decimalString N j"
    using positiveToString_short [OF s(1) s15 s(2) p22 xs] n6 n21 by (simp add: d k_def)
  then show ?thesis using x0 N0 by simp
qed

lemma decimalString_50000_5: "decimalString 500005000 4 = ''50000.5''"
proof -
  have "stripZeros (500005000, - 4) = (500005, - 1)"
    by (simp add: stripZeros.simps [of 500005000] stripZeros.simps [of 50000500]
        stripZeros.simps [of 5000050] stripZeros.simps [of 500005])
  then show ?thesis by (simp add: decimalString_def dg plainDecimal_def)
qed

lemma decimalString_1em7: "decimalString 10 8 = ''0.0000001''"
proof -
  have "stripZeros (10, - 8) = (1, - 7)"
    by (simp add: stripZeros.simps [of 10] stripZeros.simps [of 1])
  moreover have "replicate 6 CHR ''0'' = ''000000''" by (simp add: numeral_eq_Suc)
  ultimately show ?thesis by (simp add: decimalString_def digitsOf_Suc_0 plainDecimal_def)
qed

lemma parseFloat_50000_50: "parseFloat ''50000.50'' = parseFloat ''50000.5''"
  by (simp add: parseFloat_def splitSign_def isWhiteSpace_def isDigit_def digitsValue_def
      digitValue_def exponentPart_def)

lemma get_sampleCache_BTCUSDT:
  "get sampleCache ''BTCUSDT'' =
     Some \<lparr>ProductInfo.symbol = ''BTCUSDT'', contractType = Linear,
           priceScale = Finite False 1, ratioScale = Finite False 1,
           valueScale = Finite False 1, contractSize = Finite False 1\<rparr>"
  by (simp add: get_def sampleCache_def sampleData_def constructor_def iterate_def truthy_def
      Math_pow10_def roundedPow_4 roundedPow_8)

lemma toDouble_2p53: "toDouble 9007199254740992 = Some 9007199254740992"
proof -
  have "toDouble (of_int 4503599627370496 * 2 powi 1) = Some (of_int 4503599627370496 * 2 powi 1)"
    by (rule toDouble_exact) (simp_all add: maxDouble_def)
  then show ?thesis by simp
qed

lemma toDouble_2p53_1: "toDouble 9007199254740993 = Some 9007199254740992"
proof -
  have il: "ilog2 (9007199254740993::rat) = 53" by (rule ilog2_unique) simp_all
  have u: "ulpExp 9007199254740993 = 1" by (simp add: ulpExp_def il)
  have fl: "\<lfloor>(9007199254740993::rat) / 2\<rfloor> = 4503599627370496" by (rule floor_unique) simp_all
  have rh: "roundHalfEven (9007199254740993 / 2) = 4503599627370496"
    by (simp add: roundHalfEven_def Let_def fl)
  show ?thesis using toDouble_unfold [of 9007199254740993] by (simp add: u rh maxDouble_def)
qed

lemma scalePrice_2p53:
  "scalePrice sampleCache ''BTCUSDT'' ''9007199254740993'' = Inr (Finite False 9007199254740992)"
  "scalePrice sampleCache ''BTCUSDT'' ''9007199254740992'' = Inr (Finite False 9007199254740992)"
proof -
  have c: "cache sampleCache ''BTCUSDT'' =
     Some \<lparr>ProductInfo.symbol = ''BTCUSDT'', contractType = Linear,
           priceScale = Finite False 1, ratioScale = Finite False 1,
           valueScale = Finite False 1, contractSize = Finite False 1\<rparr>"
    using get_sampleCache_BTCUSDT by (simp only: get_def)
  have p1: "parseFloat ''9007199254740993'' = Finite False 9007199254740992"
    by (simp add: parseFloat_def splitSign_def isWhiteSpace_def isDigit_def digitsValue_def
        digitValue_def exponentPart_def mkNumber_def toDouble_2p53_1)
  have p2: "parseFloat ''9007199254740992'' = Finite False 9007199254740992"
    by (simp add: parseFloat_def splitSign_def isWhiteSpace_def isDigit_def digitsValue_def
        digitValue_def exponentPart_def mkNumber_def toDouble_2p53)
  have "\<lfloor>(9007199254740992::rat) + 1 / 2\<rfloor> = 9007199254740992" by (rule floor_unique) simp_all
  then have r: "Math_round (times_number (Finite False 9007199254740992) (Finite False 1))
      = Finite False 9007199254740992"
    by (simp add: mkNumber_def toDouble_2p53)
  show "scalePrice sampleCache ''BTCUSDT'' ''9007199254740993'' = Inr (Finite False 9007199254740992)"
    using r by (simp add: scalePrice_def c p1 del: times_number.simps Math_round.simps)
  show "scalePrice sampleCache ''BTCUSDT'' ''9007199254740992'' = Inr (Finite False 9007199254740992)"
    using r by (simp add: scalePrice_def c p2 del: times_number.simps Math_round.simps)
qed

section \<open>Failure of the population\<close>

lemma init_loaded:
  "loaded (init pow (constructor url) (FetchResponse 0 (Some d)))
     = (complete (currencies d) \<and> complete (products d) \<and> complete (perpProductsV2 d))"
proof -
  define c where "c = constructor url"
  have l: "\<not> loaded c" by (simp add: c_def constructor_def)
  show ?thesis
  proof (cases "iterate (currencies d)")
    case None
    then show ?thesis using l by (simp add: complete_iterate flip: c_def)
  next
    case cs: (Some cs)
    obtain done1 scales where s1: "setCurrencies pow (currencyScales c) cs = (done1, scales)"
      by (cases "setCurrencies pow (currencyScales c) cs")
    have d1: "done1 = (None \<notin> set cs)" using setCurrencies_done [of pow "currencyScales c" cs] s1 by simp
    show ?thesis
    proof (cases "done1 \<and> iterate (products d) \<noteq> None")
      case False
      then show ?thesis using l cs s1 d1
        by (auto simp: complete_iterate Let_def simp flip: c_def split: option.splits)
    next
      case True
      then obtain ps where ps: "iterate (products d) = Some ps" by auto
      obtain done2 entries where s2: "setProducts pow scales (cache c) ps = (done2, entries)"
        by (cases "setProducts pow scales (cache c) ps")
      have d2: "done2 = (None \<notin> set ps)" using setProducts_done [of pow scales "cache c" ps] s2 by simp
      show ?thesis
      proof (cases "done2 \<and> iterate (perpProductsV2 d) \<noteq> None")
        case False
        then show ?thesis using l cs s1 d1 True ps s2 d2
          by (auto simp: complete_iterate Let_def simp flip: c_def split: option.splits)
      next
        case t2: True
        then obtain vs where vs: "iterate (perpProductsV2 d) = Some vs" by auto
        obtain done3 entries' where s3: "setProductsV2 pow entries vs = (done3, entries')"
          by (cases "setProductsV2 pow entries vs")
        have d3: "done3 = (None \<notin> set vs)" using setProductsV2_done [of pow entries vs] s3 by simp
        show ?thesis using l cs s1 d1 True ps s2 d2 t2 vs s3 d3
          by (simp add: complete_iterate Let_def flip: c_def)
      qed
    qed
  qed
qed

text \<open>
  C8 (atomicity of the population), as the code has it. When \<open>init\<close> fails before the
  population starts (the fetch throws, the envelope carries a non-zero code or no data), a new
  cache is still not loaded and both of its tables are empty: \<open>get\<close> finds no symbol and no
  currency has a scale. Whatever the fetch brings, the cache is loaded after \<open>init\<close> exactly
  when nothing was thrown and all three lists were stored to their end: a table that is
  populated in part belongs to a cache that is not loaded.
\<close>

theorem init_failure_not_loaded:
  "isLoaded (init pow (constructor url) r) = populates r
   \<and> ((r = FetchFailed \<or> (\<exists>code d. r = FetchResponse code d \<and> (code \<noteq> 0 \<or> d = None)))
        \<longrightarrow> (\<forall>symb. get (init pow (constructor url) r) symb = None)
          \<and> (\<forall>ccy. currencyScales (init pow (constructor url) r) ccy = None))"
proof (rule conjI)
  show "isLoaded (init pow (constructor url) r) = populates r"
  proof (cases r)
    case FetchFailed
    then show ?thesis by (simp add: isLoaded_def populates_def constructor_def)
  next
    case (FetchResponse code d)
    show ?thesis
    proof (cases d)
      case None
      then show ?thesis using FetchResponse by (simp add: isLoaded_def populates_def constructor_def)
    next
      case (Some dd)
      show ?thesis
      proof (cases "code = 0")
        case True
        then show ?thesis using FetchResponse Some init_loaded [of pow url dd]
          by (simp only: isLoaded_def populates_def FetchResult.case option.case simp_thms)
      next
        case False
        then show ?thesis using FetchResponse Some
          by (simp add: isLoaded_def populates_def constructor_def)
      qed
    qed
  qed
next
  show "(r = FetchFailed \<or> (\<exists>code d. r = FetchResponse code d \<and> (code \<noteq> 0 \<or> d = None)))
        \<longrightarrow> (\<forall>symb. get (init pow (constructor url) r) symb = None)
          \<and> (\<forall>ccy. currencyScales (init pow (constructor url) r) ccy = None)"
  proof (rule impI)
    assume "r = FetchFailed \<or> (\<exists>code d. r = FetchResponse code d \<and> (code \<noteq> 0 \<or> d = None))"
    then have "init pow (constructor url) r = constructor url"
    proof
      assume "r = FetchFailed"
      then show ?thesis by simp
    next
      assume "\<exists>code d. r = FetchResponse code d \<and> (code \<noteq> 0 \<or> d = None)"
      then obtain code d where r: "r = FetchResponse code d" and f: "code \<noteq> 0 \<or> d = None" by blast
      show ?thesis using f by (cases d) (simp_all add: r)
    qed
    then show "(\<forall>symb. get (init pow (constructor url) r) symb = None)
          \<and> (\<forall>ccy. currencyScales (init pow (constructor url) r) ccy = None)"
      by (simp add: get_def constructor_def)
  qed
qed

theorem init_failure_not_loaded_witness:
  "isLoaded (init roundedPow (constructor ''https://api.phemex.com'')
      (FetchResponse 10001 (Some sampleData))) = False
   \<and> (\<forall>symb. get (init roundedPow (constructor ''https://api.phemex.com'')
      (FetchResponse 10001 (Some sampleData))) symb = None)
   \<and> isLoaded (init roundedPow (constructor ''https://api.phemex.com'') FetchFailed) = False
   \<and> (\<forall>symb. get (init roundedPow (constructor ''https://api.phemex.com'') FetchFailed) symb = None)
   \<and> isLoaded (init roundedPow (constructor ''https://api.phemex.com'')
      (FetchResponse 0 (Some brokenData))) = False
   \<and> isLoaded sampleCache = True"
proof -
  have p: "\<not> populates (FetchResponse 10001 (Some sampleData))" "\<not> populates FetchFailed"
    "\<not> populates (FetchResponse 0 (Some brokenData))" "populates (FetchResponse 0 (Some sampleData))"
    by (simp_all add: populates_def complete_def brokenData_def sampleData_def)
  have h1: "FetchResponse 10001 (Some sampleData) = FetchFailed
      \<or> (\<exists>code d. FetchResponse 10001 (Some sampleData) = FetchResponse code d \<and> (code \<noteq> 0 \<or> d = None))"
    by simp
  have h2: "FetchFailed = FetchFailed
      \<or> (\<exists>code d. FetchFailed = FetchResponse code d \<and> (code \<noteq> 0 \<or> d = None))"
    by simp
  from init_failure_not_loaded [of roundedPow "''https://api.phemex.com''" "FetchResponse 10001 (Some sampleData)"]
    init_failure_not_loaded [of roundedPow "''https://api.phemex.com''" FetchFailed]
    init_failure_not_loaded [of roundedPow "''https://api.phemex.com''" "FetchResponse 0 (Some brokenData)"]
    init_failure_not_loaded [of roundedPow "''https://api.phemex.com''" "FetchResponse 0 (Some sampleData)"]
    p h1 h2
  show ?thesis unfolding sampleCache_def by blast
qed

text \<open>
  C8 as it is stated fails when the population itself throws. The second product of the
  response is \<open>null\<close>: the first product is stored, reading \<open>status\<close> of the second throws,
  and the \<open>catch\<close> block leaves a cache that is not loaded and has the entry of the first.
\<close>

theorem init_partial_population:
  "isLoaded (init roundedPow (constructor ''https://api.phemex.com'')
      (FetchResponse 0 (Some brokenData))) = False
   \<and> get (init roundedPow (constructor ''https://api.phemex.com'')
      (FetchResponse 0 (Some brokenData))) ''BTCUSD''
     = Some \<lparr>ProductInfo.symbol = ''BTCUSD'', contractType = Inverse,
             priceScale = Finite False 10000, ratioScale = Finite False 100000000,
             valueScale = Finite False 100000000, contractSize = Finite False 1\<rparr>"
  by (simp add: isLoaded_def get_def brokenData_def constructor_def iterate_def
      Math_pow10_def roundedPow_4 roundedPow_8)

section \<open>The stored scale factors\<close>

lemma init_cache_shape:
  assumes "cache (init pow (constructor url) (FetchResponse 0 (Some d))) s = Some info"
  shows "\<exists>cs ps vs. iterate (currencies d) = Some cs \<and> iterate (products d) = Some ps
    \<and> {x. Some x \<in> set vs} \<subseteq> set (present (perpProductsV2 d))
    \<and> cache (init pow (constructor url) (FetchResponse 0 (Some d)))
        = snd (setProductsV2 pow
            (snd (setProducts pow (snd (setCurrencies pow Map.empty cs)) Map.empty ps)) vs)"
proof -
  define c where "c = constructor url"
  have e: "cache c = Map.empty" "currencyScales c = Map.empty" by (simp_all add: c_def constructor_def)
  note a = assms [folded c_def]
  show ?thesis
  proof (cases "iterate (currencies d)")
    case None
    then show ?thesis using a e by simp
  next
    case cs: (Some cs)
    obtain done1 scales where s1: "setCurrencies pow Map.empty cs = (done1, scales)"
      by (cases "setCurrencies pow Map.empty cs")
    show ?thesis
    proof (cases "done1 \<and> iterate (products d) \<noteq> None")
      case False
      then have "cache (init pow c (FetchResponse 0 (Some d))) = Map.empty"
        using cs s1 e by (auto simp: Let_def split: option.splits)
      then show ?thesis using a by simp
    next
      case True
      then obtain ps where ps: "iterate (products d) = Some ps" by auto
      obtain done2 entries where s2: "setProducts pow scales Map.empty ps = (done2, entries)"
        by (cases "setProducts pow scales Map.empty ps")
      show ?thesis
      proof (cases "done2 \<and> iterate (perpProductsV2 d) \<noteq> None")
        case False
        then have "cache (init pow c (FetchResponse 0 (Some d))) = entries"
          using cs s1 e True ps s2 by (auto simp: Let_def split: option.splits)
        then have "cache (init pow c (FetchResponse 0 (Some d)))
            = snd (setProductsV2 pow
                (snd (setProducts pow (snd (setCurrencies pow Map.empty cs)) Map.empty ps)) [])"
          by (simp add: s1 s2)
        then show ?thesis using cs ps unfolding c_def by (intro exI [of _ cs] exI [of _ ps] exI [of _ "[]"]) simp
      next
        case t2: True
        then obtain vs where vs: "iterate (perpProductsV2 d) = Some vs" by auto
        obtain done3 entries' where s3: "setProductsV2 pow entries vs = (done3, entries')"
          by (cases "setProductsV2 pow entries vs")
        have "cache (init pow c (FetchResponse 0 (Some d))) = entries'"
          using cs s1 e True ps s2 t2 vs s3 by (simp add: Let_def)
        then have "cache (init pow c (FetchResponse 0 (Some d)))
            = snd (setProductsV2 pow
                (snd (setProducts pow (snd (setCurrencies pow Map.empty cs)) Map.empty ps)) vs)"
          by (simp add: s1 s2 s3)
        then show ?thesis using cs ps set_present [OF vs] unfolding c_def
          by (intro exI [of _ cs] exI [of _ ps] exI [of _ vs]) simp
      qed
    qed
  qed
qed

text \<open>
  C9 (scale-factor invariant), as the code has it, on a host whose \<open>Math.pow\<close> is accurate at
  the powers of ten from \<open>10 ^ 0\<close> to \<open>10 ^ 308\<close>. After \<open>init\<close> of a new cache, every stored
  entry has a price, a ratio and a value factor that are positive integers, provided that
  the exponents the response reports lie between 0 and 308: every currency and every inverse
  or spot product reports its exponents, and a V2 product reports an exponent in this range
  or none. The fallbacks are as follows. An inverse or spot entry comes from a product with
  its symbol, and its value factor is \<open>10 ^ 8\<close> when the settlement currency of that product
  is not among the currencies. A linear entry has the value factor 1 and comes from a V2
  product with its symbol; its price factor is 1 when that product reports no price exponent
  or the exponent 0, and so for the ratio factor.
\<close>

theorem init_scale_factors_positive_integers:
  assumes "accurate pow"
    and "\<forall>cu \<in> set (present (currencies d)). reported (RawCurrency.valueScale cu)"
    and "\<forall>p \<in> set (present (products d)).
           reported (RawProduct.priceScale p) \<and> reported (RawProduct.ratioScale p)"
    and "\<forall>p \<in> set (present (perpProductsV2 d)).
           (RawProductV2.priceScale p = None \<or> reported (RawProductV2.priceScale p))
         \<and> (RawProductV2.ratioScale p = None \<or> reported (RawProductV2.ratioScale p))"
    and "get (init pow (constructor url) (FetchResponse 0 (Some d))) symb = Some info"
  shows "isPositiveInteger (ProductInfo.priceScale info)
    \<and> isPositiveInteger (ProductInfo.ratioScale info)
    \<and> isPositiveInteger (ProductInfo.valueScale info)
    \<and> (case contractType info of
          Linear \<Rightarrow>
            ProductInfo.valueScale info = Finite False 1
            \<and> (\<exists>p \<in> set (present (perpProductsV2 d)). RawProductV2.symbol p = symb
                 \<and> (\<not> truthy (RawProductV2.priceScale p)
                      \<longrightarrow> ProductInfo.priceScale info = Finite False 1)
                 \<and> (\<not> truthy (RawProductV2.ratioScale p)
                      \<longrightarrow> ProductInfo.ratioScale info = Finite False 1))
        | _ \<Rightarrow>
            (\<exists>p \<in> set (present (products d)). RawProduct.symbol p = symb
               \<and> (RawProduct.settleCurrency p \<notin> currency ` set (present (currencies d))
                    \<longrightarrow> ProductInfo.valueScale info = Finite False 100000000)))"
proof -
  have g: "cache (init pow (constructor url) (FetchResponse 0 (Some d))) symb = Some info"
    using assms(5) by (simp only: get_def)
  from init_cache_shape [OF g] obtain cs ps vs where
    cs: "iterate (currencies d) = Some cs" and ps: "iterate (products d) = Some ps"
    and vs: "{x. Some x \<in> set vs} \<subseteq> set (present (perpProductsV2 d))"
    and c: "cache (init pow (constructor url) (FetchResponse 0 (Some d)))
        = snd (setProductsV2 pow
            (snd (setProducts pow (snd (setCurrencies pow Map.empty cs)) Map.empty ps)) vs)"
    by blast
  define scales where "scales = snd (setCurrencies pow Map.empty cs)"
  define entries where "entries = snd (setProducts pow scales Map.empty ps)"
  have r1: "\<forall>cu. Some cu \<in> set cs \<longrightarrow> reported (RawCurrency.valueScale cu)"
    using assms(2) set_present [OF cs] by simp
  have r2: "\<forall>p. Some p \<in> set ps \<longrightarrow>
              reported (RawProduct.priceScale p) \<and> reported (RawProduct.ratioScale p)"
    using assms(3) set_present [OF ps] by simp
  have r3: "\<forall>p. Some p \<in> set vs \<longrightarrow>
              (RawProductV2.priceScale p = None \<or> reported (RawProductV2.priceScale p))
            \<and> (RawProductV2.ratioScale p = None \<or> reported (RawProductV2.ratioScale p))"
    using assms(4) vs by blast
  have s: "goodScales scales"
    unfolding scales_def by (rule setCurrencies_good [OF assms(1) _ r1]) (simp add: goodScales_def)
  have e: "\<forall>s info. entries s = Some info \<longrightarrow> fromProduct pow scales ps s info"
    unfolding entries_def by (rule setProducts_inv [OF assms(1) s _ _ r2]) simp_all
  then have e': "\<forall>s info. entries s = Some info
      \<longrightarrow> fromProduct pow scales ps s info \<or> fromProductV2 pow vs s info" by blast
  have "\<forall>s info. snd (setProductsV2 pow entries vs) s = Some info
      \<longrightarrow> fromProduct pow scales ps s info \<or> fromProductV2 pow vs s info"
    by (rule setProductsV2_inv [OF assms(1) e' _ r3]) simp
  then have "fromProduct pow scales ps symb info \<or> fromProductV2 pow vs symb info"
    using g c by (simp add: entries_def scales_def)
  then show ?thesis
  proof
    assume f: "fromProduct pow scales ps symb info"
    then have gi: "goodInfo info" and ct: "contractType info \<noteq> Linear" by (simp_all add: fromProduct_def)
    from f obtain p where p: "Some p \<in> set ps" "RawProduct.symbol p = symb"
      and v: "ProductInfo.valueScale info =
                (case scales (RawProduct.settleCurrency p) of
                   None \<Rightarrow> Math_pow10 pow (Some 8) | Some v \<Rightarrow> v)"
      unfolding fromProduct_def by blast
    have pin: "p \<in> set (present (products d))" using p(1) set_present [OF ps] by simp
    have fb: "ProductInfo.valueScale info = Finite False 100000000"
      if "RawProduct.settleCurrency p \<notin> currency ` set (present (currencies d))"
    proof -
      have "\<forall>cu. Some cu \<in> set cs \<longrightarrow> currency cu \<noteq> RawProduct.settleCurrency p"
        using that set_present [OF cs] by (metis (mono_tags, lifting) image_eqI mem_Collect_eq)
      then have "scales (RawProduct.settleCurrency p) = None"
        unfolding scales_def by (intro setCurrencies_absent) simp_all
      then have "ProductInfo.valueScale info = pow 8" using v by (simp add: Math_pow10_def)
      then show ?thesis using accurate_exact [OF assms(1), of 8] by simp
    qed
    have "\<exists>p \<in> set (present (products d)). RawProduct.symbol p = symb
               \<and> (RawProduct.settleCurrency p \<notin> currency ` set (present (currencies d))
                    \<longrightarrow> ProductInfo.valueScale info = Finite False 100000000)"
      using pin p(2) fb by blast
    then show ?thesis using gi ct by (cases "contractType info") (simp_all add: goodInfo_def)
  next
    assume f: "fromProductV2 pow vs symb info"
    then have gi: "goodInfo info" and ct: "contractType info = Linear"
      and v1: "ProductInfo.valueScale info = Finite False 1" by (simp_all add: fromProductV2_def)
    from f obtain p where p: "Some p \<in> set vs" "RawProductV2.symbol p = symb"
      and pr: "ProductInfo.priceScale info =
                (if truthy (RawProductV2.priceScale p)
                 then Math_pow10 pow (RawProductV2.priceScale p) else Finite False 1)"
      and ra: "ProductInfo.ratioScale info =
                (if truthy (RawProductV2.ratioScale p)
                 then Math_pow10 pow (RawProductV2.ratioScale p) else Finite False 1)"
      unfolding fromProductV2_def by blast
    have pin: "p \<in> set (present (perpProductsV2 d))" using p(1) vs by blast
    have "\<exists>p \<in> set (present (perpProductsV2 d)). RawProductV2.symbol p = symb
                 \<and> (\<not> truthy (RawProductV2.priceScale p)
                      \<longrightarrow> ProductInfo.priceScale info = Finite False 1)
                 \<and> (\<not> truthy (RawProductV2.ratioScale p)
                      \<longrightarrow> ProductInfo.ratioScale info = Finite False 1)"
      using pin p(2) pr ra by (intro bexI [of _ p]) simp_all
    then show ?thesis using gi ct v1 by (simp add: goodInfo_def)
  qed
qed

theorem init_scale_factors_positive_integers_witness:
  "get (init roundedPow (constructor ''https://api.phemex.com'') (FetchResponse 0 (Some fallbackData)))
       ''ETHUSD''
     = Some \<lparr>ProductInfo.symbol = ''ETHUSD'', contractType = Inverse,
             priceScale = Finite False 10000, ratioScale = Finite False 100000000,
             valueScale = Finite False 100000000, contractSize = Finite False 1\<rparr>
   \<and> get (init roundedPow (constructor ''https://api.phemex.com'') (FetchResponse 0 (Some fallbackData)))
       ''ETHUSDT''
     = Some \<lparr>ProductInfo.symbol = ''ETHUSDT'', contractType = Linear,
             priceScale = Finite False 1, ratioScale = Finite False 1,
             valueScale = Finite False 1, contractSize = Finite False 1\<rparr>
   \<and> isPositiveInteger (Finite False 10000)
   \<and> isPositiveInteger (Finite False 100000000)
   \<and> isPositiveInteger (Finite False 1)"
proof -
  have h1: "\<forall>cu \<in> set (present (currencies fallbackData)). reported (RawCurrency.valueScale cu)"
    by (simp add: fallbackData_def present_def reported_def)
  have h2: "\<forall>p \<in> set (present (products fallbackData)).
           reported (RawProduct.priceScale p) \<and> reported (RawProduct.ratioScale p)"
    by (simp add: fallbackData_def present_def reported_def)
  have h3: "\<forall>p \<in> set (present (perpProductsV2 fallbackData)).
           (RawProductV2.priceScale p = None \<or> reported (RawProductV2.priceScale p))
         \<and> (RawProductV2.ratioScale p = None \<or> reported (RawProductV2.ratioScale p))"
    by (simp add: fallbackData_def present_def reported_def)
  have g1: "get (init roundedPow (constructor ''https://api.phemex.com'')
        (FetchResponse 0 (Some fallbackData))) ''ETHUSD''
     = Some \<lparr>ProductInfo.symbol = ''ETHUSD'', contractType = Inverse,
             priceScale = Finite False 10000, ratioScale = Finite False 100000000,
             valueScale = Finite False 100000000, contractSize = Finite False 1\<rparr>"
    by (simp add: get_def fallbackData_def constructor_def iterate_def truthy_def
        Math_pow10_def roundedPow_4 roundedPow_8)
  have g2: "get (init roundedPow (constructor ''https://api.phemex.com'')
        (FetchResponse 0 (Some fallbackData))) ''ETHUSDT''
     = Some \<lparr>ProductInfo.symbol = ''ETHUSDT'', contractType = Linear,
             priceScale = Finite False 1, ratioScale = Finite False 1,
             valueScale = Finite False 1, contractSize = Finite False 1\<rparr>"
    by (simp add: get_def fallbackData_def constructor_def iterate_def truthy_def
        Math_pow10_def roundedPow_4 roundedPow_8)
  from init_scale_factors_positive_integers [OF roundedPow_accurate h1 h2 h3 g1]
    init_scale_factors_positive_integers [OF roundedPow_accurate h1 h2 h3 g2] g1 g2
  show ?thesis by simp
qed

text \<open>
  C9 as it is stated fails in three ways. An exponent of 309 or more is a non-negative
  integer all the same, but \<open>Math.pow(10, 309)\<close> overflows, and the entry is stored with the
  price factor \<open>Infinity\<close>. An inverse product that reports no price exponent gets the price
  factor \<open>Math.pow(10, undefined)\<close>, which is \<open>NaN\<close> and not the default 1. And a linear product
  whose settlement currency is not among the currencies has the value factor 1, not
  \<open>10 ^ 8\<close>.
\<close>

theorem init_scale_factor_overflow:
  "map_option ProductInfo.priceScale
     (get (init roundedPow (constructor ''https://api.phemex.com'')
        (FetchResponse 0 (Some (inverseData (Some 309))))) ''BTCUSD'') = Some (Infinity False)
   \<and> \<not> isPositiveInteger (Infinity False)
   \<and> map_option ProductInfo.priceScale
     (get (init roundedPow (constructor ''https://api.phemex.com'')
        (FetchResponse 0 (Some (inverseData None)))) ''BTCUSD'') = Some NaN
   \<and> \<not> isPositiveInteger NaN
   \<and> map_option ProductInfo.valueScale
     (get (init roundedPow (constructor ''https://api.phemex.com'')
        (FetchResponse 0 (Some fallbackData))) ''ETHUSDT'') = Some (Finite False 1)"
  by (simp add: get_def constructor_def iterate_def inverseData_def fallbackData_def truthy_def
      Math_pow10_def roundedPow_309 roundedPow_4 roundedPow_8 isPositiveInteger_def)

section \<open>The response conversion and scaled siblings\<close>

lemma endsWith_simps:
  "endsWith ''priceEp'' ''Ep''" "\<not> endsWith ''price'' ''Ep''" "\<not> endsWith ''price'' ''Er''"
  "\<not> endsWith ''price'' ''Ev''"
  by (simp_all add: endsWith_def suffix_to_prefix)

lemma setProperty_price: "setProperty [] ''price'' v = [(''price'', v)]"
  by (simp add: setProperty_def hasProperty_def isArrayIndex_def isDigit_def)

text \<open>
  C2 (response conversion drops redundant null siblings). Under a symbol whose price scale
  factor is 10000, the object with \<open>priceEp: 500005000\<close> and \<open>price: null\<close> converts to the
  object whose only property is \<open>price: "50000.5"\<close>, whichever of the two properties comes
  first in the object.
\<close>

theorem convertResponse_drops_null_sibling:
  assumes "get c symb = Some info" and "ProductInfo.priceScale info = Finite False 10000"
  shows "convertResponse c symb
           (JObject [(''priceEp'', JNumber (Finite False 500005000)), (''price'', JNull)])
         = JObject [(''price'', JString ''50000.5'')]
    \<and> convertResponse c symb
           (JObject [(''price'', JNull), (''priceEp'', JNumber (Finite False 500005000))])
         = JObject [(''price'', JString ''50000.5'')]"
proof -
  have u: "unscaled (JNumber (Finite False 500005000)) (ProductInfo.priceScale info)
      = JString ''50000.5''"
    using tsd by (simp add: unscaled_def numberOf_def assms(2))
  have c: "cache c symb = Some info" using assms(1) by (simp add: get_def)
  have s: "slice0 ''priceEp'' 2 = ''price''" by (simp add: slice0_def)
  have h: "hasProperty [(''priceEp'', v), (''price'', w)] ''priceEp''"
    "hasProperty [(''price'', w), (''priceEp'', v)] ''priceEp''" for v w
    by (simp_all add: hasProperty_def)
  show ?thesis
    by (simp add: c endsWith_simps isNumber_def u s h setProperty_price)
qed

theorem convertResponse_drops_null_sibling_witness:
  "get sampleCache ''BTCUSD'' \<noteq> None
   \<and> ProductInfo.priceScale (the (get sampleCache ''BTCUSD'')) = Finite False 10000
   \<and> convertResponse sampleCache ''BTCUSD''
           (JObject [(''priceEp'', JNumber (Finite False 500005000)), (''price'', JNull)])
         = JObject [(''price'', JString ''50000.5'')]
   \<and> convertResponse sampleCache ''BTCUSD''
           (JObject [(''price'', JNull), (''priceEp'', JNumber (Finite False 500005000))])
         = JObject [(''price'', JString ''50000.5'')]"
  using convertResponse_drops_null_sibling [OF get_sampleCache_BTCUSD]
  by (simp add: get_sampleCache_BTCUSD)

text \<open>
  C10 (the plain sibling of a scaled field), as the code has it. Let an object hold the key
  \<open>k\<close> with any value \<open>v\<close>, and also one of the keys \<open>k\<close> followed by \<open>Ep\<close>, \<open>Er\<close> or \<open>Ev\<close>.
  Then the converted object holds under \<open>k\<close> either nothing or the decimal string converted
  from a number that the object holds under \<open>k\<close> followed by \<open>Ep\<close>, \<open>Er\<close> or \<open>Ev\<close>; so it
  holds nothing under \<open>k\<close> when none of these siblings is a number. And unless the entry of
  \<open>k\<close> is itself a scaled field (a number under a key ending in one of the suffixes), its
  value does not reach the output at all: replacing \<open>v\<close> by any other such value gives the
  same converted object.
\<close>

theorem convertResponse_plain_sibling:
  assumes "get c symb = Some info"
    and "obj = pre @ (k, v) # post"
    and "hasProperty obj (k @ ''Ep'') \<or> hasProperty obj (k @ ''Er'') \<or> hasProperty obj (k @ ''Ev'')"
  shows "(\<exists>out. convertResponse c symb (JObject obj) = JObject out
       \<and> (\<not> hasProperty out k
          \<or> (\<exists>n. (k @ ''Ep'', JNumber n) \<in> set obj \<and> map_of out k
                = Some (JString (toString (divide_number n (ProductInfo.priceScale info)))))
          \<or> (\<exists>n. (k @ ''Er'', JNumber n) \<in> set obj \<and> map_of out k
                = Some (JString (toString (divide_number n (ProductInfo.ratioScale info)))))
          \<or> (\<exists>n. (k @ ''Ev'', JNumber n) \<in> set obj \<and> map_of out k
                = Some (JString (toString (divide_number n (ProductInfo.valueScale info)))))))
    \<and> (\<forall>v'. \<not> isScaledField k v \<and> \<not> isScaledField k v' \<longrightarrow>
          convertResponse c symb (JObject (pre @ (k, v') # post))
            = convertResponse c symb (JObject obj))"
proof (intro conjI allI impI)
  have c: "cache c symb = Some info" using assms(1) by (simp add: get_def)
  define out where "out = convertEntries c symb info obj obj []"
  have o: "convertResponse c symb (JObject obj) = JObject out"
    by (simp add: c out_def)
  have n: "map_of out k = None \<longleftrightarrow> \<not> hasProperty out k"
    by (simp add: hasProperty_def map_of_eq_None_iff)
  from convertEntries_plain_key [OF assms(3), of c symb info obj "[]"]
  have "\<not> hasProperty out k
      \<or> (\<exists>n. (k @ ''Ep'', JNumber n) \<in> set obj \<and> map_of out k
            = Some (JString (toString (divide_number n (ProductInfo.priceScale info)))))
      \<or> (\<exists>n. (k @ ''Er'', JNumber n) \<in> set obj \<and> map_of out k
            = Some (JString (toString (divide_number n (ProductInfo.ratioScale info)))))
      \<or> (\<exists>n. (k @ ''Ev'', JNumber n) \<in> set obj \<and> map_of out k
            = Some (JString (toString (divide_number n (ProductInfo.valueScale info)))))"
    unfolding out_def [symmetric] n [symmetric] by (simp add: unscaled_def numberOf_def)
  with o show "\<exists>out. convertResponse c symb (JObject obj) = JObject out
       \<and> (\<not> hasProperty out k
          \<or> (\<exists>n. (k @ ''Ep'', JNumber n) \<in> set obj \<and> map_of out k
                = Some (JString (toString (divide_number n (ProductInfo.priceScale info)))))
          \<or> (\<exists>n. (k @ ''Er'', JNumber n) \<in> set obj \<and> map_of out k
                = Some (JString (toString (divide_number n (ProductInfo.ratioScale info)))))
          \<or> (\<exists>n. (k @ ''Ev'', JNumber n) \<in> set obj \<and> map_of out k
                = Some (JString (toString (divide_number n (ProductInfo.valueScale info))))))"
    by blast
next
  fix v'
  assume ns: "\<not> isScaledField k v \<and> \<not> isScaledField k v'"
  have c: "cache c symb = Some info" using assms(1) by (simp add: get_def)
  define obj' where "obj' = pre @ (k, v') # post"
  have keys: "hasProperty obj' x = hasProperty obj x" for x
    unfolding obj'_def assms(2) by (rule hasProperty_replace)
  have sib': "hasProperty obj' (k @ ''Ep'') \<or> hasProperty obj' (k @ ''Er'')
      \<or> hasProperty obj' (k @ ''Ev'')"
    using assms(3) by (simp only: keys)
  have a: "convertEntries c symb info obj' (pre @ (k, v') # post) []
      = convertEntries c symb info obj' (pre @ post) []"
    using sib' ns by (intro convertEntries_replace) simp_all
  have b: "convertEntries c symb info obj (pre @ (k, v) # post) []
      = convertEntries c symb info obj (pre @ post) []"
    using assms(3) ns by (intro convertEntries_replace) simp_all
  have k: "convertEntries c symb info obj' (pre @ post) []
      = convertEntries c symb info obj (pre @ post) []"
    by (rule convertEntries_same_keys [OF keys])
  have lhs: "convertResponse c symb (JObject (pre @ (k, v') # post))
      = JObject (convertEntries c symb info obj' (pre @ (k, v') # post) [])"
    by (simp add: c obj'_def)
  have rhs: "convertResponse c symb (JObject obj)
      = JObject (convertEntries c symb info obj (pre @ (k, v) # post) [])"
    by (simp add: c assms(2))
  show "convertResponse c symb (JObject (pre @ (k, v') # post))
      = convertResponse c symb (JObject obj)"
    by (simp only: lhs rhs a b k)
qed

theorem convertResponse_plain_sibling_witness:
  "get sampleCache ''BTCUSD''
       = Some \<lparr>ProductInfo.symbol = ''BTCUSD'', contractType = Inverse,
               priceScale = Finite False 10000, ratioScale = Finite False 100000000,
               valueScale = Finite False 100000000, contractSize = Finite False 1\<rparr>
   \<and> hasProperty [(''price'', JNumber (Finite False 7)), (''priceEp'', JString ''n/a'')]
         (''price'' @ ''Ep'')
   \<and> convertResponse sampleCache ''BTCUSD''
         (JObject [(''price'', JNumber (Finite False 7)), (''priceEp'', JString ''n/a'')])
       = JObject [(''priceEp'', JString ''n/a'')]
   \<and> \<not> hasProperty [(''priceEp'', JString ''n/a'')] ''price''
   \<and> convertResponse sampleCache ''BTCUSD''
         (JObject [(''price'', JNull), (''priceEp'', JString ''n/a'')])
       = convertResponse sampleCache ''BTCUSD''
           (JObject [(''price'', JNumber (Finite False 7)), (''priceEp'', JString ''n/a'')])"
proof -
  let ?obj = "[(''price'', JNumber (Finite False 7)), (''priceEp'', JString ''n/a'')]"
  have h2: "?obj = [] @ (''price'', JNumber (Finite False 7)) # [(''priceEp'', JString ''n/a'')]"
    by simp
  have h3: "hasProperty ?obj (''price'' @ ''Ep'') \<or> hasProperty ?obj (''price'' @ ''Er'')
      \<or> hasProperty ?obj (''price'' @ ''Ev'')"
    by (simp add: hasProperty_def)
  have ns: "\<not> isScaledField ''price'' (JNumber (Finite False 7))
      \<and> \<not> isScaledField ''price'' JNull"
    by (simp add: isScaledField_def endsWith_simps)
  have c: "cache sampleCache ''BTCUSD'' \<noteq> None"
    using get_sampleCache_BTCUSD by (simp add: get_def)
  have e: "convertResponse sampleCache ''BTCUSD'' (JObject ?obj)
      = JObject [(''priceEp'', JString ''n/a'')]"
    using c by (auto simp: endsWith_simps isNumber_def isObject_def hasProperty_def
        setProperty_def isArrayIndex_def isDigit_def)
  from convertResponse_plain_sibling [OF get_sampleCache_BTCUSD h2 h3]
  have "\<forall>v'. \<not> isScaledField ''price'' (JNumber (Finite False 7)) \<and> \<not> isScaledField ''price'' v'
        \<longrightarrow> convertResponse sampleCache ''BTCUSD''
              (JObject ([] @ (''price'', v') # [(''priceEp'', JString ''n/a'')]))
            = convertResponse sampleCache ''BTCUSD'' (JObject ?obj)"
    by (rule conjunct2)
  with ns have "convertResponse sampleCache ''BTCUSD''
        (JObject ([] @ (''price'', JNull) # [(''priceEp'', JString ''n/a'')]))
      = convertResponse sampleCache ''BTCUSD'' (JObject ?obj)"
    by blast
  then show ?thesis
    using get_sampleCache_BTCUSD e by (simp add: hasProperty_def)
qed

text \<open>
  C10 as it is stated fails where the key \<open>k\<close> is itself a scaled field: in the object with
  \<open>fooEp: 10000\<close> and \<open>fooEpEp: 20000\<close>, the key \<open>fooEp\<close> has the sibling \<open>fooEpEp\<close>, yet the
  converted object has the key \<open>fooEp\<close> (the conversion of \<open>fooEpEp\<close>), and the value of
  \<open>fooEp\<close> is kept, converted, under \<open>foo\<close>.
\<close>

theorem convertResponse_plain_sibling_counterexample:
  "hasProperty [(''fooEp'', JNumber (Finite False 10000)), (''fooEpEp'', JNumber (Finite False 20000))]
     (''fooEp'' @ ''Ep'')
   \<and> convertResponse sampleCache ''BTCUSD''
         (JObject [(''fooEp'', JNumber (Finite False 10000)),
                   (''fooEpEp'', JNumber (Finite False 20000))])
       = JObject [(''foo'', JString ''1''), (''fooEp'', JString ''2'')]
   \<and> hasProperty [(''foo'', JString ''1''), (''fooEp'', JString ''2'')] ''fooEp''"
proof -
  have c: "cache sampleCache ''BTCUSD''
      = Some \<lparr>ProductInfo.symbol = ''BTCUSD'', contractType = Inverse,
               priceScale = Finite False 10000, ratioScale = Finite False 100000000,
               valueScale = Finite False 100000000, contractSize = Finite False 1\<rparr>"
    using get_sampleCache_BTCUSD by (simp add: get_def)
  have e: "endsWith ''fooEp'' ''Ep''" "endsWith ''fooEpEp'' ''Ep''"
    by (simp_all add: endsWith_def suffix_to_prefix)
  have u: "unscaled (JNumber (Finite False 10000)) (Finite False 10000) = JString ''1''"
    "unscaled (JNumber (Finite False 20000)) (Finite False 10000) = JString ''2''"
    by (simp_all add: unscaled_def numberOf_def mkNumber_def toDouble_1 toDouble_numeral
        positiveToString_1 positiveToString_2)
  have s: "slice0 ''fooEp'' 2 = ''foo''" "slice0 ''fooEpEp'' 2 = ''fooEp''"
    by (simp_all add: slice0_def)
  have p: "setProperty [] ''foo'' v = [(''foo'', v)]"
    "setProperty [(''foo'', v)] ''fooEp'' w = [(''foo'', v), (''fooEp'', w)]" for v w
    by (simp_all add: setProperty_def hasProperty_def isArrayIndex_def isDigit_def)
  show ?thesis
    by (simp add: c e u s p isNumber_def hasProperty_def)
qed

section \<open>The round trip of price scaling\<close>

text \<open>
  C1 (round trip of value scaling), as the code has it. For a symbol whose price factor is
  \<open>10 ^ j\<close> and a decimal \<open>N / 10 ^ j\<close>, with either sign, where \<open>N\<close> is an integer of at most
  15 digits (or \<open>10 ^ 15\<close>) and the decimal is zero or at least \<open>0.000001\<close>: for every string
  \<open>d\<close> that \<open>parseFloat\<close> reads as it reads the canonical string of the decimal (the canonical
  string itself, the same with trailing zeros, and so on), \<open>scalePrice\<close> returns the integer
  \<open>N\<close> with the sign, and \<open>unscalePrice\<close> of that integer returns the canonical string,
  without padding; minus zero comes back as \<open>0\<close>.
\<close>

theorem price_round_trip:
  assumes "get c symb = Some info" and "ProductInfo.priceScale info = Finite False (10 ^ j)"
    and "N \<le> 10 ^ 15" and "N = 0 \<or> 10 ^ j \<le> N * 10 ^ 6"
    and "parseFloat d = parseFloat ((if neg then ''-'' else []) @ decimalString N j)"
  shows "scalePrice c symb d = Inr (Finite neg (of_nat N))
    \<and> unscalePrice c symb (Finite neg (of_nat N))
        = Inr ((if neg \<and> 0 < N then ''-'' else []) @ decimalString N j)"
proof -
  define V :: rat where "V = of_nat N / 10 ^ j"
  have N15: "(of_nat N :: rat) \<le> 10 ^ 15"
    using assms(3) by (metis of_nat_le_iff of_nat_numeral of_nat_power)
  have "(of_nat N :: rat) / 10 ^ j \<le> of_nat N / 1" by (rule divide_left_mono) simp_all
  then have "V \<le> 10 ^ 15 + 1" using N15 by (simp add: V_def)
  then have Vm: "V \<le> maxDouble" using maxDouble_ge by linarith
  have V0: "0 \<le> V" by (simp add: V_def)
  obtain x where x: "toDouble V = Some x"
  proof (cases "V = 0")
    case True
    then show ?thesis using that by (simp add: toDouble_def)
  next
    case False
    then have "0 < V" using V0 by simp
    from toDouble_finite [OF this Vm] show ?thesis using that by blast
  qed
  have pd: "parseFloat d = Finite neg x"
    using assms(5) x by (simp only: parseFloat_decimalString) (simp add: mkNumber_def V_def)
  have sc: "Math_round (times_number (Finite neg x) (Finite False (10 ^ j))) = Finite neg (of_nat N)"
  proof (cases "N = 0")
    case True
    then have "x = 0" using x by (simp add: V_def toDouble_def)
    moreover have "\<lfloor>(1::rat) / 2\<rfloor> = 0" by (rule floor_unique) simp_all
    ultimately show ?thesis using True by (simp add: mkNumber_def toDouble_def)
  next
    case False
    then have N0: "0 < N" by simp
    have j: "j \<le> 22" using assms(3,4) False by (intro small_scale [of N j]) simp_all
    show ?thesis using N0 assms(3) j x unfolding V_def by (rule scale_round)
  qed
  have "divide_number (Finite neg (of_nat N)) (Finite False (10 ^ j)) = Finite neg x"
    using x by (simp add: mkNumber_def V_def)
  moreover have "toString (Finite neg x) = (if neg \<and> 0 < N then ''-'' else []) @ decimalString N j"
    using assms(3,4) x unfolding V_def by (rule toString_decimal)
  ultimately show ?thesis
    using assms(1,2) pd sc
    by (simp add: get_def scalePrice_def unscalePrice_def del: divide_number.simps
        times_number.simps Math_round.simps toString.simps)
qed

theorem price_round_trip_witness:
  "scalePrice sampleCache ''BTCUSD'' ''50000.5'' = Inr (Finite False 500005000)
   \<and> unscalePrice sampleCache ''BTCUSD'' (Finite False 500005000) = Inr ''50000.5''
   \<and> scalePrice sampleCache ''BTCUSD'' ''50000.50'' = Inr (Finite False 500005000)
   \<and> scalePrice sampleCache ''BTCUSD'' ''-50000.5'' = Inr (Finite True 500005000)
   \<and> unscalePrice sampleCache ''BTCUSD'' (Finite True 500005000) = Inr ''-50000.5''"
proof -
  have s: "ProductInfo.priceScale
      \<lparr>ProductInfo.symbol = ''BTCUSD'', contractType = Inverse,
       priceScale = Finite False 10000, ratioScale = Finite False 100000000,
       valueScale = Finite False 100000000, contractSize = Finite False 1\<rparr> = Finite False (10 ^ 4)"
    by simp
  have n: "(500005000::nat) \<le> 10 ^ 15"
    and m: "(500005000::nat) = 0 \<or> 10 ^ 4 \<le> (500005000::nat) * 10 ^ 6" by simp_all
  have d1: "parseFloat ''50000.5''
      = parseFloat ((if False then ''-'' else []) @ decimalString 500005000 4)"
    by (simp add: decimalString_50000_5)
  have d2: "parseFloat ''50000.50''
      = parseFloat ((if False then ''-'' else []) @ decimalString 500005000 4)"
    by (simp add: decimalString_50000_5 parseFloat_50000_50)
  have d3: "parseFloat ''-50000.5''
      = parseFloat ((if True then ''-'' else []) @ decimalString 500005000 4)"
    by (simp add: decimalString_50000_5)
  from price_round_trip [OF get_sampleCache_BTCUSD s n m d1]
    price_round_trip [OF get_sampleCache_BTCUSD s n m d2]
    price_round_trip [OF get_sampleCache_BTCUSD s n m d3]
  show ?thesis by (simp add: decimalString_50000_5)
qed

text \<open>
  C1 as it is stated fails below \<open>0.000001\<close> and beyond 15 digits. The spot symbol has the
  price factor \<open>10 ^ 8\<close>, so the decimal \<open>0.0000001\<close> is within its precision: it scales to 10,
  and 10 unscales to \<open>1e-7\<close>, the exponent form that \<open>toString\<close> takes below \<open>1e-6\<close>, not to
  the canonical decimal string. The linear symbol has the price factor 1, and the decimals
  \<open>9007199254740993\<close> and \<open>9007199254740992\<close>, of 16 digits, scale to the same integer: the
  first is no double, and \<open>unscalePrice\<close> cannot give back both.
\<close>

theorem price_round_trip_exponent_form:
  "scalePrice sampleCache ''sBTCUSDT'' ''0.0000001'' = Inr (Finite False 10)
   \<and> unscalePrice sampleCache ''sBTCUSDT'' (Finite False 10) = Inr ''1e-7''
   \<and> decimalString 10 8 = ''0.0000001''
   \<and> scalePrice sampleCache ''BTCUSDT'' ''9007199254740993'' = Inr (Finite False 9007199254740992)
   \<and> scalePrice sampleCache ''BTCUSDT'' ''9007199254740992'' = Inr (Finite False 9007199254740992)"
proof -
  have c: "cache sampleCache ''sBTCUSDT'' =
     Some \<lparr>ProductInfo.symbol = ''sBTCUSDT'', contractType = Spot,
           priceScale = Finite False 100000000, ratioScale = Finite False 100000000,
           valueScale = Finite False 100000000, contractSize = Finite False 1\<rparr>"
    using get_sampleCache_sBTCUSDT by (simp only: get_def)
  have "\<lfloor>(10::rat) + 1 / 2\<rfloor> = 10" by (rule floor_unique) simp_all
  then have r: "Math_round (Finite False 10) = Finite False 10" by simp
  have "scalePrice sampleCache ''sBTCUSDT'' ''0.0000001''
      = Inr (Math_round (times_number (parseFloat ''0.0000001'') (Finite False 100000000)))"
    by (simp add: scalePrice_def c del: times_number.simps)
  then have a: "scalePrice sampleCache ''sBTCUSDT'' ''0.0000001'' = Inr (Finite False 10)"
    by (simp only: parseFloat_1em7 times_1em7 r)
  have "unscalePrice sampleCache ''sBTCUSDT'' (Finite False 10)
      = Inr (toString (divide_number (Finite False 10) (Finite False 100000000)))"
    by (simp add: unscalePrice_def c del: divide_number.simps)
  then have b: "unscalePrice sampleCache ''sBTCUSDT'' (Finite False 10) = Inr ''1e-7''"
    by (simp only: divide_10 toString_1em7)
  from a b decimalString_1em7 scalePrice_2p53 show ?thesis by (intro conjI)
qed

end
